theory Spec2Isabelle
  imports Complex_Main
begin

section \<open>Masked running normalisation (padertorch, contrib/je/modules/norm.py)\<close>

text \<open>
  A shallow embedding of the classes \<open>Norm\<close>, \<open>Shift\<close>, \<open>Scale\<close> and \<open>ConditionedNorm\<close>.

  Tensor entries are real numbers and lengths are integers: the model is the exact
  arithmetic of the source. Rounding, overflow, infinities and NaN of the float32
  arithmetic of the tensor runtime are outside the model. The runtime differs from the
  exact arithmetic in four places of this class:

  \<^item> a product with NaN or an infinity is NaN, also where the other factor is 0, as in
    the final \<open>x * mask\<close> of \<open>Norm.forward\<close>; in the model every product with 0 is 0;

  \<^item> \<open>power - mean ** 2\<close> (lines 208 and 226) is rounded and can come out below zero for
    finite entries, and \<open>torch.sqrt\<close> of it is then NaN; in the model the difference is
    never negative for a mask of zeros and ones, and \<open>sqrt\<close> is the real square root;

  \<^item> a division whose denominator is zero gives an infinity or NaN and does not raise,
    as \<open>n_values / self.num_tracked_values\<close> (line 213) can; in the model it is HOL's
    \<open>x / 0 = 0\<close>;

  \<^item> \<open>torch.Tensor(seq_len).long()\<close> (line 239) takes the lengths through float32, which
    rounds a length of magnitude above \<open>2^24\<close>; the model keeps every length as it is.
\<close>

subsection \<open>Errors\<close>

datatype error = ValueError | IndexError | AssertionError | TypeError | AttributeError
  | RuntimeError

definition bindE :: "error + 'a \<Rightarrow> ('a \<Rightarrow> error + 'b) \<Rightarrow> error + 'b" where
  "bindE m f = (case m of Inl e \<Rightarrow> Inl e | Inr v \<Rightarrow> f v)"

subsection \<open>Tensors\<close>

text \<open>
  A tensor is its shape and its entries, read at a multi-index. Only the entries at
  indices inside the shape are meaningful.
\<close>

record tensor =
  shape :: "nat list"
  el :: "nat list \<Rightarrow> real"

definition valid_idx :: "nat list \<Rightarrow> nat list \<Rightarrow> bool" where
  "valid_idx s i = list_all2 (<) i s"

text \<open>Broadcasting of two sizes of one axis, and of two shapes aligned at the right.\<close>

definition bdim :: "nat \<Rightarrow> nat \<Rightarrow> nat option" where
  "bdim a b = (if a = b then Some a else if a = 1 then Some b
               else if b = 1 then Some a else None)"

fun bdims :: "nat list \<Rightarrow> nat list \<Rightarrow> nat list option" where
  "bdims [] [] = Some []"
| "bdims (a # as) (b # bs) =
     (case bdim a b of None \<Rightarrow> None
      | Some d \<Rightarrow> (case bdims as bs of None \<Rightarrow> None | Some ds \<Rightarrow> Some (d # ds)))"
| "bdims _ _ = None"

definition pad_shape :: "nat \<Rightarrow> nat list \<Rightarrow> nat list" where
  "pad_shape n s = replicate (n - length s) 1 @ s"

definition broadcast_shapes :: "nat list \<Rightarrow> nat list \<Rightarrow> nat list option" where
  "broadcast_shapes a b =
     (let n = max (length a) (length b) in bdims (pad_shape n a) (pad_shape n b))"

text \<open>The index at which an operand of shape \<open>s\<close> is read for the result index \<open>i\<close>.\<close>

definition bidx :: "nat list \<Rightarrow> nat list \<Rightarrow> nat list" where
  "bidx s i = map2 (\<lambda>d v. if d = 1 then 0 else v) s (drop (length i - length s) i)"

definition tmap :: "(real \<Rightarrow> real) \<Rightarrow> tensor \<Rightarrow> tensor" where
  "tmap f a = \<lparr>shape = shape a, el = (\<lambda>i. f (el a i))\<rparr>"

definition tbin :: "(real \<Rightarrow> real \<Rightarrow> real) \<Rightarrow> tensor \<Rightarrow> tensor \<Rightarrow> error + tensor" where
  "tbin f a b =
     (case broadcast_shapes (shape a) (shape b) of
        None \<Rightarrow> Inl RuntimeError
      | Some s \<Rightarrow>
          Inr \<lparr>shape = s, el = (\<lambda>i. f (el a (bidx (shape a) i)) (el b (bidx (shape b) i)))\<rparr>)"

text \<open>An in-place operation \<open>a op= b\<close>: the result must have the shape of \<open>a\<close>.\<close>

definition tbin_inplace ::
  "(real \<Rightarrow> real \<Rightarrow> real) \<Rightarrow> tensor \<Rightarrow> tensor \<Rightarrow> error + tensor" where
  "tbin_inplace f a b =
     (case broadcast_shapes (shape a) (shape b) of
        None \<Rightarrow> Inl RuntimeError
      | Some s \<Rightarrow>
          if s = shape a
          then Inr \<lparr>shape = s,
                    el = (\<lambda>i. f (el a (bidx (shape a) i)) (el b (bidx (shape b) i)))\<rparr>
          else Inl RuntimeError)"

definition full :: "nat list \<Rightarrow> real \<Rightarrow> tensor" where
  "full s v = \<lparr>shape = s, el = (\<lambda>i. v)\<rparr>"

definition zeros :: "nat list \<Rightarrow> tensor" where
  "zeros s = full s 0"

definition ones :: "nat list \<Rightarrow> tensor" where
  "ones s = full s 1"

definition ones_like :: "tensor \<Rightarrow> tensor" where
  "ones_like t = ones (shape t)"

text \<open>\<open>torch.Tensor(l).long()\<close> for a list of integers, in exact arithmetic: the source goes
  through float32, which is exact for magnitudes up to \<open>2^24\<close>.\<close>

definition of_ints :: "int list \<Rightarrow> tensor" where
  "of_ints l = \<lparr>shape = [length l], el = (\<lambda>i. real_of_int (l ! hd i))\<rparr>"

definition arange :: "nat \<Rightarrow> tensor" where
  "arange n = \<lparr>shape = [n], el = (\<lambda>i. real (hd i))\<rparr>"

text \<open>\<open>t.unsqueeze(-1)\<close>\<close>

definition unsqueeze_last :: "tensor \<Rightarrow> tensor" where
  "unsqueeze_last t = \<lparr>shape = shape t @ [1], el = (\<lambda>i. el t (butlast i))\<rparr>"

text \<open>\<open>t.expand(s)\<close>: each axis of \<open>t\<close>, aligned at the right, has the size asked for or 1.\<close>

definition expandable :: "nat list \<Rightarrow> nat list \<Rightarrow> bool" where
  "expandable a s \<longleftrightarrow>
     length a \<le> length s
     \<and> list_all2 (\<lambda>d e. d = e \<or> d = 1) a (drop (length s - length a) s)"

definition expand :: "nat list \<Rightarrow> tensor \<Rightarrow> error + tensor" where
  "expand s t =
     (if expandable (shape t) s
      then Inr \<lparr>shape = s, el = (\<lambda>i. el t (bidx (shape t) i))\<rparr>
      else Inl RuntimeError)"

text \<open>
  \<open>t.sum(dim=axes, keepdim=True)\<close>. \<open>rsum k axes s j f\<close> adds \<open>f\<close> over the indices of
  shape \<open>s\<close> that agree with \<open>j\<close> on the axes not in \<open>axes\<close>; \<open>k\<close> is the number of the
  first axis of \<open>s\<close>.
\<close>

fun rsum :: "nat \<Rightarrow> nat list \<Rightarrow> nat list \<Rightarrow> nat list \<Rightarrow> (nat list \<Rightarrow> real) \<Rightarrow> real" where
  "rsum k axes [] j f = f []"
| "rsum k axes (d # ds) j f =
     (if k \<in> set axes
      then (\<Sum>a\<leftarrow>[0..<d]. rsum (Suc k) axes ds (tl j) (\<lambda>i. f (a # i)))
      else rsum (Suc k) axes ds (tl j) (\<lambda>i. f (hd j # i)))"

definition reduced_dims :: "nat list \<Rightarrow> nat list \<Rightarrow> nat list" where
  "reduced_dims axes s = map (\<lambda>(k, d). if k \<in> set axes then 1 else d) (enumerate 0 s)"

text \<open>
  An axis outside the rank and a repeated axis raise; an empty tuple of axes reduces
  over every axis.
\<close>

definition tsum :: "nat list \<Rightarrow> tensor \<Rightarrow> error + tensor" where
  "tsum axes t =
     (if \<exists>a\<in>set axes. length (shape t) \<le> a then Inl IndexError
      else if \<not> distinct axes then Inl RuntimeError
      else let ax = (if axes = [] then [0..<length (shape t)] else axes)
           in Inr \<lparr>shape = reduced_dims ax (shape t),
                    el = (\<lambda>j. rsum 0 ax (shape t) j (el t))\<rparr>)"

text \<open>All multi-indices of a shape, and \<open>t.max().item()\<close>, which raises on an empty tensor.\<close>

fun indices :: "nat list \<Rightarrow> nat list list" where
  "indices [] = [[]]"
| "indices (d # ds) = concat (map (\<lambda>a. map ((#) a) (indices ds)) [0..<d])"

definition tmax_item :: "tensor \<Rightarrow> error + real" where
  "tmax_item t =
     (case map (el t) (indices (shape t)) of
        [] \<Rightarrow> Inl RuntimeError
      | v # vs \<Rightarrow> Inr (fold max vs v))"

subsection \<open>Strings\<close>

definition lower :: "char \<Rightarrow> char" where
  "lower c = (let n = (of_char c :: nat) in if 65 \<le> n \<and> n \<le> 90 then char_of (n + 32) else c)"

text \<open>\<open>s.index(c)\<close> for a single character \<open>c\<close>.\<close>

fun str_index :: "string \<Rightarrow> char \<Rightarrow> error + nat" where
  "str_index [] c = Inl ValueError"
| "str_index (d # ds) c = (if d = c then Inr 0 else map_sum id Suc (str_index ds c))"

fun str_indices :: "string \<Rightarrow> string \<Rightarrow> error + nat list" where
  "str_indices fmt [] = Inr []"
| "str_indices fmt (ax # axs) =
     bindE (str_index fmt (lower ax)) (\<lambda>k.
     bindE (str_indices fmt axs) (\<lambda>ks. Inr (k # ks)))"

text \<open>Python truthiness of a value that is \<open>None\<close>, \<open>True\<close> or \<open>False\<close>.\<close>

definition truthy :: "bool option \<Rightarrow> bool" where
  "truthy b = (b = Some True)"

subsection \<open>Shift and Scale\<close>

text \<open>
  The shape of the parameter of \<open>Shift.__init__\<close> and \<open>Scale.__init__\<close>: size 1 on every
  axis of the layout but the independent ones, whose size is read from the shape
  descriptor. The descriptor itself may be \<open>None\<close> (its default).
\<close>

fun affine_shape ::
  "nat list \<Rightarrow> nat option list option \<Rightarrow> string \<Rightarrow> string \<Rightarrow> error + nat list" where
  "affine_shape reduced_shape shp fmt [] = Inr reduced_shape"
| "affine_shape reduced_shape shp fmt (ax # axs) =
     bindE (str_index fmt (lower ax)) (\<lambda>k.
       case shp of
         None \<Rightarrow> Inl TypeError
       | Some s \<Rightarrow>
           if length s \<le> k then Inl IndexError
           else (case s ! k of
                   None \<Rightarrow> Inl AssertionError
                 | Some d \<Rightarrow> affine_shape (reduced_shape[k := d]) shp fmt axs))"

definition Shift_init :: "nat option list option \<Rightarrow> string \<Rightarrow> string \<Rightarrow> error + tensor" where
  "Shift_init shp fmt independent_axis =
     bindE (affine_shape (replicate (length fmt) 1) shp fmt independent_axis) (\<lambda>s.
       Inr (zeros s))"

definition Scale_init :: "nat option list option \<Rightarrow> string \<Rightarrow> string \<Rightarrow> error + tensor" where
  "Scale_init shp fmt independent_axis =
     bindE (affine_shape (replicate (length fmt) 1) shp fmt independent_axis) (\<lambda>s.
       Inr (ones s))"

text \<open>\<open>Shift.forward\<close> subtracts the parameter, \<open>Scale.forward\<close> multiplies by it.\<close>

definition Shift_forward :: "tensor \<Rightarrow> tensor \<Rightarrow> error + tensor" where
  "Shift_forward shift x = tbin (-) x shift"

definition Scale_forward :: "tensor \<Rightarrow> tensor \<Rightarrow> error + tensor" where
  "Scale_forward scl x = tbin (*) x scl"

subsection \<open>Norm\<close>

text \<open>
  The fields of a \<open>Norm\<close> instance. \<open>learnable_scale\<close> and \<open>learnable_shift\<close> hold the
  parameter of the \<open>Scale\<close> and \<open>Shift\<close> submodule, \<open>training\<close> is the mode flag of the
  module. \<open>scale\<close> is tested in the source both for truth and against \<open>None\<close>.
\<close>

record norm =
  data_format :: string
  batch_axis :: nat
  sequence_axis :: nat
  statistics_axis :: "nat list"
  scale :: "bool option"
  eps :: real
  track_running_stats :: bool
  num_tracked_values :: "tensor option"
  running_mean :: "tensor option"
  running_power :: "tensor option"
  momentum :: "real option"
  learnable_scale :: "tensor option"
  learnable_shift :: "tensor option"
  n_freeze :: "real option"
  training :: bool

text \<open>\<open>reduced_shape[ax] = 1\<close> for every statistics axis.\<close>

fun set_ones :: "nat option list \<Rightarrow> nat list \<Rightarrow> error + nat option list" where
  "set_ones reduced_shape [] = Inr reduced_shape"
| "set_ones reduced_shape (ax # axs) =
     (if length reduced_shape \<le> ax then Inl IndexError
      else set_ones (reduced_shape[ax := Some 1]) axs)"

definition buffer_shape :: "nat option list option \<Rightarrow> nat list \<Rightarrow> error + nat list" where
  "buffer_shape shp stat =
     (case shp of
        None \<Rightarrow> Inl TypeError
      | Some s \<Rightarrow>
          bindE (set_ones s stat) (\<lambda>reduced_shape.
            if list_ex (\<lambda>d. d = None) reduced_shape then Inl AssertionError
            else Inr (map the reduced_shape)))"

definition Norm_init ::
  "string \<Rightarrow> nat option list option \<Rightarrow> string \<Rightarrow> string option \<Rightarrow> char \<Rightarrow> char \<Rightarrow>
   bool option \<Rightarrow> real \<Rightarrow> real option \<Rightarrow> real option \<Rightarrow> error + norm" where
  "Norm_init fmt shp stat_axis independent_axis b_axis s_axis scl e mom nf =
     bindE (str_index fmt (lower b_axis)) (\<lambda>b.
     bindE (str_index fmt (lower s_axis)) (\<lambda>s.
     bindE (str_indices fmt stat_axis) (\<lambda>stat.
     let track = (b_axis \<in> set stat_axis) in
     bindE (if track then map_sum id Some (buffer_shape shp stat) else Inr None) (\<lambda>rs.
     bindE (case independent_axis of
              None \<Rightarrow> Inr None
            | Some ia \<Rightarrow> map_sum id Some (Scale_init shp fmt ia)) (\<lambda>lscale.
     bindE (case independent_axis of
              None \<Rightarrow> Inr None
            | Some ia \<Rightarrow> map_sum id Some (Shift_init shp fmt ia)) (\<lambda>lshift.
     Inr \<lparr>data_format = map lower fmt,
          batch_axis = b,
          sequence_axis = s,
          statistics_axis = stat,
          scale = scl,
          eps = e,
          track_running_stats = track,
          num_tracked_values = map_option zeros rs,
          running_mean = map_option zeros rs,
          running_power = (if truthy scl then map_option ones rs else None),
          momentum = mom,
          learnable_scale = lscale,
          learnable_shift = lshift,
          n_freeze = nf,
          training = True\<rparr>))))))"

text \<open>
  \<open>Norm.freezed\<close>: \<open>and\<close> stops at the first false operand, so the buffer is read only
  when a threshold is set and the running statistics are tracked.
\<close>

definition freezed :: "norm \<Rightarrow> error + bool" where
  "freezed st =
     (case n_freeze st of
        None \<Rightarrow> Inr False
      | Some nf \<Rightarrow>
          if \<not> track_running_stats st then Inr False
          else (case num_tracked_values st of
                  None \<Rightarrow> Inl AttributeError
                | Some ntv \<Rightarrow> bindE (tmax_item ntv) (\<lambda>m. Inr (nf \<le> m))))"

text \<open>
  \<open>Norm.reset_running_stats\<close> and \<open>Norm.reset_parameters\<close> mutate the instance: the
  model returns the instance as it is left, and the exception if one is raised.
\<close>

definition reset_running_stats :: "norm \<Rightarrow> norm \<times> error option" where
  "reset_running_stats st =
     (if track_running_stats st then
        (case running_mean st of
           None \<Rightarrow> (st, Some AttributeError)
         | Some rm \<Rightarrow>
             let st1 = st\<lparr>running_mean := Some (zeros (shape rm))\<rparr> in
             (case num_tracked_values st1 of
                None \<Rightarrow> (st1, Some AttributeError)
              | Some ntv \<Rightarrow>
                  let st2 = st1\<lparr>num_tracked_values := Some (zeros (shape ntv))\<rparr> in
                  if scale st2 \<noteq> None then
                    (case running_power st2 of
                       None \<Rightarrow> (st2, Some AttributeError)
                     | Some rp \<Rightarrow> (st2\<lparr>running_power := Some (full (shape rp) 1)\<rparr>, None))
                  else (st2, None)))
      else (st, None))"

definition reset_parameters :: "norm \<Rightarrow> norm \<times> error option" where
  "reset_parameters st =
     (case reset_running_stats st of
        (st1, Some e) \<Rightarrow> (st1, Some e)
      | (st1, None) \<Rightarrow>
          let st2 = (case learnable_scale st1 of
                       None \<Rightarrow> st1
                     | Some sc \<Rightarrow> st1\<lparr>learnable_scale := Some (ones (shape sc))\<rparr>);
              st3 = (case learnable_shift st2 of
                       None \<Rightarrow> st2
                     | Some sh \<Rightarrow> st2\<lparr>learnable_shift := Some (zeros (shape sh))\<rparr>)
          in (st3, None))"

text \<open>
  \<open>Norm.compute_mask\<close>. The lengths become a tensor with one trailing axis of size 1 for
  every axis after the batch axis, the positions \<open>arange\<close> one for every axis after the
  sequence axis; the comparison broadcasts them and \<open>expand\<close> gives the shape of \<open>x\<close>.
\<close>

definition compute_mask :: "norm \<Rightarrow> tensor \<Rightarrow> int list option \<Rightarrow> error + tensor" where
  "compute_mask st x seq_len =
     (case seq_len of
        None \<Rightarrow> Inr (ones_like x)
      | Some sl \<Rightarrow>
          let r = length (shape x);
              seq = (unsqueeze_last ^^ (r - (batch_axis st + 1))) (of_ints sl)
          in if r \<le> sequence_axis st then Inl IndexError
             else
               let idx = (unsqueeze_last ^^ (r - (sequence_axis st + 1)))
                           (arange (shape x ! sequence_axis st))
               in bindE (tbin (\<lambda>a b. if a < b then 1 else 0) idx seq) (expand (shape x)))"

text \<open>\<open>Norm.compute_stats\<close> returns the mean, the power (or \<open>None\<close>) and the count.\<close>

definition compute_stats ::
  "norm \<Rightarrow> tensor \<Rightarrow> tensor \<Rightarrow> error + (tensor \<times> tensor option \<times> tensor)" where
  "compute_stats st x msk =
     bindE (tsum (statistics_axis st) msk) (\<lambda>n_values.
     bindE (tbin (*) x msk) (\<lambda>xm.
     bindE (tsum (statistics_axis st) xm) (\<lambda>s.
     bindE (tbin max n_values (ones_like n_values)) (\<lambda>d.
     bindE (tbin (/) s d) (\<lambda>mean.
     if \<not> truthy (scale st) then Inr (mean, None, n_values)
     else
       bindE (tsum (statistics_axis st) (tmap (\<lambda>v. v\<^sup>2) xm)) (\<lambda>q.
       bindE (tbin max n_values (ones_like n_values)) (\<lambda>d'.
       bindE (tbin (/) q d') (\<lambda>pwr.
       Inr (mean, Some pwr, n_values)))))))))"

text \<open>
  The unbiased variance of lines 207-208 and 224-227:
  \<open>n = max(count, 2); var = n / (n - 1.) * (power - mean ** 2)\<close>. The source does not
  clamp the difference: in float32 it can round below zero.
\<close>

definition unbiased_var :: "tensor \<Rightarrow> tensor \<Rightarrow> tensor \<Rightarrow> error + tensor" where
  "unbiased_var n_values pwr mean =
     bindE (tbin max n_values (tmap (\<lambda>v. 2 * v) (ones_like n_values))) (\<lambda>n.
     bindE (tbin (/) n (tmap (\<lambda>v. v - 1) n)) (\<lambda>c.
     bindE (tbin (-) pwr (tmap (\<lambda>v. v\<^sup>2) mean)) (\<lambda>d.
     tbin (*) c d)))"

text \<open>Lines 205-209 of \<open>Norm.forward\<close>: centre and scale with the statistics of the call.\<close>

definition normalize_batch ::
  "norm \<Rightarrow> tensor \<Rightarrow> tensor \<Rightarrow> tensor option \<Rightarrow> tensor \<Rightarrow> error + tensor" where
  "normalize_batch st x mean pwr n_values =
     bindE (tbin (-) x mean) (\<lambda>x1.
     if truthy (scale st) then
       (case pwr of
          None \<Rightarrow> Inl TypeError
        | Some p \<Rightarrow>
            bindE (unbiased_var n_values p mean) (\<lambda>var.
            tbin (/) x1 (tmap (\<lambda>v. sqrt v + eps st) var)))
     else Inr x1)"

text \<open>A Python float in a tensor expression broadcasts as a tensor without axes.\<close>

definition scalar :: "real \<Rightarrow> tensor" where
  "scalar v = full [] v"

text \<open>
  Lines 211-220 of \<open>Norm.forward\<close>: the in-place updates of the three buffers, in the
  order of the source. An exception leaves the updates made before it. With
  \<open>momentum=None\<close> line 213 divides by the count buffer, which the source does not
  clamp: where it is 0 the runtime computes 0 / 0.
\<close>

definition update_running_stats ::
  "norm \<Rightarrow> tensor \<Rightarrow> tensor option \<Rightarrow> tensor \<Rightarrow> norm \<times> error option" where
  "update_running_stats st mean pwr n_values =
     (case num_tracked_values st of
        None \<Rightarrow> (st, Some TypeError)
      | Some ntv \<Rightarrow>
     (case tbin_inplace (+) ntv n_values of
        Inl e \<Rightarrow> (st, Some e)
      | Inr ntv' \<Rightarrow>
     let st1 = st\<lparr>num_tracked_values := Some ntv'\<rparr> in
     (case (case momentum st1 of
              None \<Rightarrow> bindE (tbin (/) n_values ntv') (\<lambda>q. Inr (tmap (\<lambda>v. 1 - v) q))
            | Some m \<Rightarrow> Inr (scalar m)) of
        Inl e \<Rightarrow> (st1, Some e)
      | Inr mom \<Rightarrow>
     (case running_mean st1 of
        None \<Rightarrow> (st1, Some TypeError)
      | Some rm \<Rightarrow>
     (case tbin_inplace (*) rm mom of
        Inl e \<Rightarrow> (st1, Some e)
      | Inr rm1 \<Rightarrow>
     let st2 = st1\<lparr>running_mean := Some rm1\<rparr> in
     (case bindE (tbin (*) (tmap (\<lambda>v. 1 - v) mom) mean) (tbin_inplace (+) rm1) of
        Inl e \<Rightarrow> (st2, Some e)
      | Inr rm2 \<Rightarrow>
     let st3 = st2\<lparr>running_mean := Some rm2\<rparr> in
     if truthy (scale st3) then
       (case running_power st3 of
          None \<Rightarrow> (st3, Some TypeError)
        | Some rp \<Rightarrow>
       (case tbin_inplace (*) rp mom of
          Inl e \<Rightarrow> (st3, Some e)
        | Inr rp1 \<Rightarrow>
       let st4 = st3\<lparr>running_power := Some rp1\<rparr> in
       (case pwr of
          None \<Rightarrow> (st4, Some AttributeError)
        | Some p \<Rightarrow>
       (case bindE (tbin (*) (tmap (\<lambda>v. 1 - v) mom) p) (tbin_inplace (+) rp1) of
          Inl e \<Rightarrow> (st4, Some e)
        | Inr rp2 \<Rightarrow> (st4\<lparr>running_power := Some rp2\<rparr>, None)))))
     else (st3, None)))))))"

text \<open>Lines 204-220: the branch that estimates the statistics from the call.\<close>

definition forward_estimate :: "norm \<Rightarrow> tensor \<Rightarrow> tensor \<Rightarrow> norm \<times> (error + tensor)" where
  "forward_estimate st x msk =
     (case compute_stats st x msk of
        Inl e \<Rightarrow> (st, Inl e)
      | Inr (mean, pwr, n_values) \<Rightarrow>
     (case normalize_batch st x mean pwr n_values of
        Inl e \<Rightarrow> (st, Inl e)
      | Inr x1 \<Rightarrow>
          if track_running_stats st then
            (case update_running_stats st mean pwr n_values of
               (st', Some e) \<Rightarrow> (st', Inl e)
             | (st', None) \<Rightarrow> (st', Inr x1))
          else (st, Inr x1)))"

text \<open>Lines 222-228: the branch that replays the running statistics.\<close>

definition normalize_running :: "norm \<Rightarrow> tensor \<Rightarrow> error + tensor" where
  "normalize_running st x =
     (case running_mean st of
        None \<Rightarrow> Inl AttributeError
      | Some rm \<Rightarrow>
          bindE (tbin (-) x rm) (\<lambda>x1.
          if truthy (scale st) then
            (case num_tracked_values st of
               None \<Rightarrow> Inl TypeError
             | Some ntv \<Rightarrow>
            (case running_power st of
               None \<Rightarrow> Inl TypeError
             | Some rp \<Rightarrow>
                 bindE (unbiased_var ntv rp rm) (\<lambda>running_var.
                 tbin (/) x1 (tmap (\<lambda>v. sqrt v + eps st) running_var))))
          else Inr x1))"

text \<open>
  The condition of line 203, \<open>(self.training and not self.freezed) or not
  self.track_running_stats\<close>: \<open>freezed\<close> is read only in training mode.
\<close>

definition estimate_mode :: "norm \<Rightarrow> error + bool" where
  "estimate_mode st =
     (if training st
      then bindE (freezed st) (\<lambda>f. Inr (\<not> f \<or> \<not> track_running_stats st))
      else Inr (\<not> track_running_stats st))"

text \<open>Lines 230-234: the learnable scale, the learnable shift and the mask.\<close>

definition affine_and_mask :: "norm \<Rightarrow> tensor \<Rightarrow> tensor \<Rightarrow> error + tensor" where
  "affine_and_mask st x msk =
     bindE (case learnable_scale st of None \<Rightarrow> Inr x | Some sc \<Rightarrow> Scale_forward sc x) (\<lambda>x1.
     bindE (case learnable_shift st of None \<Rightarrow> Inr x1 | Some sh \<Rightarrow> Shift_forward sh x1) (\<lambda>x2.
     tbin (*) x2 msk))"

text \<open>\<open>Norm.forward\<close>: the instance as the call leaves it, and the result or the exception.\<close>

definition forward :: "norm \<Rightarrow> tensor \<Rightarrow> int list option \<Rightarrow> norm \<times> (error + tensor)" where
  "forward st x seq_len =
     (case compute_mask st x seq_len of
        Inl e \<Rightarrow> (st, Inl e)
      | Inr msk \<Rightarrow>
     (case estimate_mode st of
        Inl e \<Rightarrow> (st, Inl e)
      | Inr est \<Rightarrow>
     (case (if est then forward_estimate st x msk else (st, normalize_running st x)) of
        (st', Inl e) \<Rightarrow> (st', Inl e)
      | (st', Inr x1) \<Rightarrow> (st', affine_and_mask st' x1 msk))))"

subsection \<open>Sequences of calls and example instances\<close>

text \<open>
  A sequence of \<open>forward\<close> calls on one instance; before each call the training mode
  is set as the caller asks.
\<close>

fun run_calls :: "norm \<Rightarrow> (bool \<times> tensor \<times> int list option) list \<Rightarrow> norm" where
  "run_calls st [] = st"
| "run_calls st ((tr, x, sl) # cs) = run_calls (fst (forward (st\<lparr>training := tr\<rparr>) x sl)) cs"

text \<open>An instance whose count has passed its freeze threshold.\<close>

definition frozen_norm :: norm where
  "frozen_norm =
     \<lparr>data_format = ''bct'', batch_axis = 0, sequence_axis = 2, statistics_axis = [0, 2],
      scale = Some True, eps = 1 / 100000, track_running_stats = True,
      num_tracked_values = Some (full [1, 2, 1] 6),
      running_mean = Some (full [1, 2, 1] 1),
      running_power = Some (full [1, 2, 1] (5 / 2)),
      momentum = Some (1 / 2), learnable_scale = None, learnable_shift = None,
      n_freeze = Some 5, training = True\<rparr>"

text \<open>An instance that normalises every example over its time axis and keeps no state.\<close>

definition untracked_norm :: norm where
  "untracked_norm =
     \<lparr>data_format = ''bct'', batch_axis = 0, sequence_axis = 2, statistics_axis = [2],
      scale = Some True, eps = 1 / 100000, track_running_stats = False,
      num_tracked_values = None, running_mean = None, running_power = None,
      momentum = Some (1 / 2), learnable_scale = None, learnable_shift = None,
      n_freeze = None, training = True\<rparr>"

subsection \<open>Predicates and quantities of the statements\<close>

text \<open>
  A tensor fits a shape when it broadcasts into it; an input conforms to an instance when
  the parameters and buffers of the instance fit the shape of the input.
\<close>

definition fits :: "nat list \<Rightarrow> tensor option \<Rightarrow> bool" where
  "fits s t = (case t of None \<Rightarrow> True | Some a \<Rightarrow> expandable (shape a) s)"

definition conforms :: "norm \<Rightarrow> tensor \<Rightarrow> bool" where
  "conforms st x \<longleftrightarrow>
     fits (shape x) (learnable_scale st) \<and> fits (shape x) (learnable_shift st) \<and>
     fits (shape x) (running_mean st) \<and> fits (shape x) (running_power st) \<and>
     fits (shape x) (num_tracked_values st)"

definition kept_ok :: "nat \<Rightarrow> nat list \<Rightarrow> nat list \<Rightarrow> nat list \<Rightarrow> bool" where
  "kept_ok k ax s j \<longleftrightarrow>
     length j = length s \<and> (\<forall>n<length s. k + n \<notin> set ax \<longrightarrow> j ! n < s ! n)"

definition stat_axes :: "norm \<Rightarrow> tensor \<Rightarrow> nat list" where
  "stat_axes st x =
     (if statistics_axis st = [] then [0..<length (shape x)] else statistics_axis st)"

definition stat_shape :: "norm \<Rightarrow> tensor \<Rightarrow> nat list" where
  "stat_shape st x = reduced_dims (stat_axes st x) (shape x)"

definition axes_ok :: "norm \<Rightarrow> tensor \<Rightarrow> bool" where
  "axes_ok st x \<longleftrightarrow>
     (\<forall>a\<in>set (statistics_axis st). a < length (shape x)) \<and> distinct (statistics_axis st)"

definition count_at :: "norm \<Rightarrow> tensor \<Rightarrow> tensor \<Rightarrow> nat list \<Rightarrow> real" where
  "count_at st x msk j = rsum 0 (stat_axes st x) (shape x) j (el msk)"

definition sum_at :: "norm \<Rightarrow> tensor \<Rightarrow> tensor \<Rightarrow> nat list \<Rightarrow> real" where
  "sum_at st x msk j = rsum 0 (stat_axes st x) (shape x) j (\<lambda>i. el x i * el msk i)"

definition sqsum_at :: "norm \<Rightarrow> tensor \<Rightarrow> tensor \<Rightarrow> nat list \<Rightarrow> real" where
  "sqsum_at st x msk j = rsum 0 (stat_axes st x) (shape x) j (\<lambda>i. (el x i * el msk i)\<^sup>2)"

text \<open>The lengths go with the input: one length for every example, and the batch and
  sequence axes of the instance are axes of the input.\<close>

definition lengths_ok :: "norm \<Rightarrow> tensor \<Rightarrow> int list option \<Rightarrow> bool" where
  "lengths_ok st x seq_len =
     (case seq_len of
        None \<Rightarrow> True
      | Some sl \<Rightarrow> batch_axis st < length (shape x) \<and> sequence_axis st < length (shape x)
                  \<and> length sl = shape x ! batch_axis st)"

text \<open>The buffers of a tracking instance have the shape of the statistics of the input;
  an input is ready for an instance when the statistics axes are distinct axes of the
  input, the buffers and learnable parameters fit, the lengths go with the input and,
  with a freeze threshold, the count buffer is not empty.\<close>

definition buffers_ok :: "norm \<Rightarrow> tensor \<Rightarrow> bool" where
  "buffers_ok st x \<longleftrightarrow>
     (track_running_stats st \<longrightarrow>
        map_option shape (num_tracked_values st) = Some (stat_shape st x) \<and>
        map_option shape (running_mean st) = Some (stat_shape st x) \<and>
        (truthy (scale st) \<longrightarrow>
           map_option shape (running_power st) = Some (stat_shape st x)))"

definition ready :: "norm \<Rightarrow> tensor \<Rightarrow> int list option \<Rightarrow> bool" where
  "ready st x seq_len \<longleftrightarrow>
     axes_ok st x \<and> buffers_ok st x \<and>
     fits (shape x) (learnable_scale st) \<and> fits (shape x) (learnable_shift st) \<and>
     lengths_ok st x seq_len \<and>
     (n_freeze st \<noteq> None \<longrightarrow> 0 \<notin> set (stat_shape st x))"

text \<open>The instance and the input of the doctest of \<open>Norm\<close>:
  \<open>Norm(data_format='bct', shape=(None, 10, None), statistics_axis='bt', momentum=0.5)\<close>
  and \<open>2*torch.ones((3,10,4))\<close>.\<close>

definition doc_norm :: norm where
  "doc_norm =
     \<lparr>data_format = ''bct'', batch_axis = 0, sequence_axis = 2, statistics_axis = [0, 2],
      scale = Some True, eps = 1 / 100000, track_running_stats = True,
      num_tracked_values = Some (zeros [1, 10, 1]),
      running_mean = Some (zeros [1, 10, 1]),
      running_power = Some (ones [1, 10, 1]),
      momentum = Some (1 / 2),
      learnable_scale = Some (ones [1, 10, 1]), learnable_shift = Some (zeros [1, 10, 1]),
      n_freeze = None, training = True\<rparr>"

definition doc_x :: tensor where
  "doc_x = full [3, 10, 4] 2"

text \<open>The instance of the doctest with a freeze threshold of one tracked value:
  \<open>Norm(data_format='bct', shape=(None, 10, None), statistics_axis='bt', momentum=0.5,
  n_freeze=1)\<close>.\<close>

definition frozen_doc_norm :: norm where
  "frozen_doc_norm = doc_norm\<lparr>n_freeze := Some 1\<rparr>"

text \<open>The instance of the doctest with the cumulative average in place of a fixed
  momentum:
  \<open>Norm(data_format='bct', shape=(None, 10, None), statistics_axis='bt', momentum=None)\<close>.\<close>

definition cumulative_doc_norm :: norm where
  "cumulative_doc_norm = doc_norm\<lparr>momentum := None\<rparr>"

subsection \<open>ConditionedNorm\<close>

text \<open>\<open>x[idx]\<close> for a tensor \<open>x\<close> and a list of row numbers: the rows of \<open>x\<close> in the order of
  \<open>idx\<close>. Outside its rows the result is read as 0.\<close>

definition index_rows :: "tensor \<Rightarrow> nat list \<Rightarrow> error + tensor" where
  "index_rows x idx =
     (case shape x of
        [] \<Rightarrow> Inl IndexError
      | b # s \<Rightarrow>
          if \<exists>k\<in>set idx. b \<le> k then Inl IndexError
          else Inr \<lparr>shape = length idx # s,
                    el = (\<lambda>i. case i of
                                [] \<Rightarrow> 0
                              | r # j \<Rightarrow> if r < length idx then el x (idx ! r # j) else 0)\<rparr>)"

text \<open>\<open>a[idx]\<close> for a numpy array \<open>a\<close> of one axis.\<close>

definition np_take :: "'a list \<Rightarrow> nat list \<Rightarrow> error + 'a list" where
  "np_take a idx =
     (if \<exists>k\<in>set idx. length a \<le> k then Inl IndexError else Inr (map (\<lambda>k. a ! k) idx))"

text \<open>\<open>None if seq_len is None else seq_len[idx]\<close>.\<close>

definition take_lengths :: "int list option \<Rightarrow> nat list \<Rightarrow> error + int list option" where
  "take_lengths seq_len idx =
     (case seq_len of
        None \<Rightarrow> Inr None
      | Some sl \<Rightarrow> map_sum id Some (np_take sl idx))"

text \<open>\<open>a[idx] = vals\<close>: the values are stored one by one, a single value is stored at
  every index, and any other number of values raises.\<close>

definition np_put :: "nat list \<Rightarrow> nat list \<Rightarrow> nat list \<Rightarrow> error + nat list" where
  "np_put a idx vals =
     (if \<exists>k\<in>set idx. length a \<le> k then Inl IndexError
      else if length vals = length idx
      then Inr (fold (\<lambda>(k, v) d. d[k := v]) (zip idx vals) a)
      else if length vals = 1
      then Inr (fold (\<lambda>k d. d[k := hd vals]) idx a)
      else Inl ValueError)"

text \<open>\<open>np.argsort(conditions)\<close>. The model sorts stably; numpy's default sort promises no
  order among equal keys.\<close>

definition argsort :: "int list \<Rightarrow> nat list" where
  "argsort cs = sort_key (\<lambda>k. cs ! k) [0..<length cs]"

text \<open>\<open>torch.cat(ts, dim=0)\<close>: the list is not empty, the tensors have an axis 0 and agree
  on the other axes.\<close>

fun cat_el :: "tensor list \<Rightarrow> nat list \<Rightarrow> real" where
  "cat_el [] i = 0"
| "cat_el (t # ts) i =
     (if hd i < hd (shape t) then el t i
      else cat_el ts ((hd i - hd (shape t)) # tl i))"

definition cat :: "tensor list \<Rightarrow> error + tensor" where
  "cat ts =
     (case ts of
        [] \<Rightarrow> Inl RuntimeError
      | t # _ \<Rightarrow>
          if shape t = [] \<or> (\<exists>u\<in>set ts. shape u = [] \<or> tl (shape u) \<noteq> tl (shape t))
          then Inl RuntimeError
          else Inr \<lparr>shape = sum_list (map (\<lambda>u. hd (shape u)) ts) # tl (shape t),
                    el = cat_el ts\<rparr>)"

text \<open>\<open>l[c]\<close> for a Python list of length \<open>n\<close>: a negative index counts from the end.\<close>

definition py_index :: "nat \<Rightarrow> int \<Rightarrow> error + nat" where
  "py_index n c =
     (if 0 \<le> c \<and> c < int n then Inr (nat c)
      else if - int n \<le> c \<and> c < 0 then Inr (nat (int n + c))
      else Inl IndexError)"

text \<open>The fields of a \<open>ConditionedNorm\<close> instance; \<open>cn_learnable_scale\<close> and
  \<open>cn_learnable_shift\<close> are its attributes \<open>learnable_scale\<close> and \<open>learnable_shift\<close>.\<close>

record conditioned_norm =
  n_conditions :: nat
  norms :: "norm list"
  cn_learnable_scale :: "tensor option"
  cn_learnable_shift :: "tensor option"

text \<open>\<open>ConditionedNorm.__init__\<close>: one \<open>Norm\<close> without learnable parameters for every
  condition, and the shared scale and shift.\<close>

definition ConditionedNorm_init ::
  "nat \<Rightarrow> string \<Rightarrow> nat option list option \<Rightarrow> string option \<Rightarrow> bool option \<Rightarrow>
   string \<Rightarrow> char \<Rightarrow> char \<Rightarrow> real \<Rightarrow> real option \<Rightarrow> real option \<Rightarrow> error + conditioned_norm" where
  "ConditionedNorm_init n fmt shp independent_axis scl stat_axis b_axis s_axis e mom nf =
     bindE (if n = 0 then Inr []
            else bindE (Norm_init fmt shp stat_axis None b_axis s_axis scl e mom nf)
                   (\<lambda>nrm. Inr (replicate n nrm))) (\<lambda>ns.
     bindE (case ns of
              [] \<Rightarrow> Inl IndexError
            | nrm # _ \<Rightarrow> if batch_axis nrm = 0 then Inr () else Inl AssertionError) (\<lambda>_.
     bindE (case independent_axis of
              None \<Rightarrow> Inr None
            | Some ia \<Rightarrow> map_sum id Some (Scale_init shp fmt ia)) (\<lambda>lscale.
     bindE (case independent_axis of
              None \<Rightarrow> Inr None
            | Some ia \<Rightarrow> map_sum id Some (Shift_init shp fmt ia)) (\<lambda>lshift.
     Inr \<lparr>n_conditions = n, norms = ns,
          cn_learnable_scale = lscale, cn_learnable_shift = lshift\<rparr>))))"

text \<open>Lines 345-352 of \<open>ConditionedNorm.forward\<close>: the instance of every condition
  present is called on the rows of its group, one group after the other. The list of
  instances is returned as the calls leave it.\<close>

fun run_groups ::
  "norm list \<Rightarrow> tensor \<Rightarrow> int list option \<Rightarrow> (int \<times> nat list) list \<Rightarrow>
   norm list \<times> (error + tensor list)" where
  "run_groups ns x seq_len [] = (ns, Inr [])"
| "run_groups ns x seq_len ((c, idx_array) # gs) =
     (case py_index (length ns) c of
        Inl e \<Rightarrow> (ns, Inl e)
      | Inr k \<Rightarrow>
     (case index_rows x idx_array of
        Inl e \<Rightarrow> (ns, Inl e)
      | Inr xg \<Rightarrow>
     (case take_lengths seq_len idx_array of
        Inl e \<Rightarrow> (ns, Inl e)
      | Inr slg \<Rightarrow>
     (case forward (ns ! k) xg slg of
        (nk, Inl e) \<Rightarrow> (ns[k := nk], Inl e)
      | (nk, Inr y) \<Rightarrow>
     (case run_groups (ns[k := nk]) x seq_len gs of
        (ns', Inl e) \<Rightarrow> (ns', Inl e)
      | (ns', Inr ys) \<Rightarrow> (ns', Inr (y # ys)))))))"

text \<open>Lines 333-355: sort by condition, normalise the groups, concatenate and restore
  the order of the examples. Returns the instances, the restored tensor and the sorted
  lengths.\<close>

definition normalize_groups ::
  "conditioned_norm \<Rightarrow> tensor \<Rightarrow> int list \<Rightarrow> int list option \<Rightarrow>
   norm list \<times> (error + tensor \<times> int list option)" where
  "normalize_groups cn x conditions seq_len =
     (case shape x of
        [] \<Rightarrow> (norms cn, Inl IndexError)
      | b # _ \<Rightarrow>
     let idx = [0..<b];
         sort_idx = argsort conditions
     in
     (case np_put (replicate b 0) sort_idx idx of
        Inl e \<Rightarrow> (norms cn, Inl e)
      | Inr reverse_idx \<Rightarrow>
     (case index_rows x sort_idx of
        Inl e \<Rightarrow> (norms cn, Inl e)
      | Inr xs \<Rightarrow>
     (case take_lengths seq_len sort_idx of
        Inl e \<Rightarrow> (norms cn, Inl e)
      | Inr seq_len' \<Rightarrow>
     (case np_take conditions sort_idx of
        Inl e \<Rightarrow> (norms cn, Inl e)
      | Inr conditions' \<Rightarrow>
     let conditions_set = sort (remdups conditions');
         idx_arrays = map (\<lambda>c. filter (\<lambda>k. conditions' ! k = c) [0..<length conditions'])
                        conditions_set
     in
     (case run_groups (norms cn) xs seq_len' (zip conditions_set idx_arrays) of
        (ns, Inl e) \<Rightarrow> (ns, Inl e)
      | (ns, Inr ys) \<Rightarrow>
          (ns, bindE (cat ys) (\<lambda>xc.
               bindE (index_rows xc reverse_idx) (\<lambda>xr. Inr (xr, seq_len'))))))))))"

text \<open>Lines 357-363: the shared scale and shift; after a shift the mask is computed from
  the lengths as line 339 left them.\<close>

definition shared_affine ::
  "conditioned_norm \<Rightarrow> norm list \<Rightarrow> tensor \<Rightarrow> int list option \<Rightarrow> error + tensor" where
  "shared_affine cn ns x seq_len' =
     bindE (case cn_learnable_scale cn of None \<Rightarrow> Inr x | Some sc \<Rightarrow> Scale_forward sc x) (\<lambda>x1.
     case cn_learnable_shift cn of
       None \<Rightarrow> Inr x1
     | Some sh \<Rightarrow>
         bindE (Shift_forward sh x1) (\<lambda>x2.
         case ns of
           [] \<Rightarrow> Inl IndexError
         | n0 # _ \<Rightarrow> bindE (compute_mask n0 x2 seq_len') (\<lambda>msk. tbin (*) x2 msk)))"

text \<open>\<open>ConditionedNorm.forward\<close>: the instance as the call leaves it, and the result or
  the exception.\<close>

definition CN_forward ::
  "conditioned_norm \<Rightarrow> tensor \<Rightarrow> int list \<Rightarrow> int list option \<Rightarrow>
   conditioned_norm \<times> (error + tensor)" where
  "CN_forward cn x conditions seq_len =
     (case normalize_groups cn x conditions seq_len of
        (ns, Inl e) \<Rightarrow> (cn\<lparr>norms := ns\<rparr>, Inl e)
      | (ns, Inr (xr, seq_len')) \<Rightarrow> (cn\<lparr>norms := ns\<rparr>, shared_affine cn ns xr seq_len'))"

text \<open>The examples of one condition, in the order of the batch.\<close>

definition members :: "int list \<Rightarrow> int \<Rightarrow> nat list" where
  "members conditions c = filter (\<lambda>k. conditions ! k = c) [0..<length conditions]"

text \<open>The parameters and buffers of an instance fit a single row of the input, and so
  every group of its rows.\<close>

definition conforms_rows :: "norm \<Rightarrow> tensor \<Rightarrow> bool" where
  "conforms_rows st x \<longleftrightarrow> conforms st (x\<lparr>shape := 1 # tl (shape x)\<rparr>)"

text \<open>The instances that \<open>ConditionedNorm\<close> builds for the call of its doctest,
  \<open>ConditionedNorm(data_format='bct', n_conditions=3, shape=(None, 10, None),
  statistics_axis='bt', momentum=0.5)\<close>: three instances of \<open>Norm\<close> without learnable
  parameters, and the shared scale and shift.\<close>

definition inner_doc_norm :: norm where
  "inner_doc_norm = doc_norm\<lparr>learnable_scale := None, learnable_shift := None\<rparr>"

definition doc_cn :: conditioned_norm where
  "doc_cn = \<lparr>n_conditions = 3, norms = [inner_doc_norm, inner_doc_norm, inner_doc_norm],
             cn_learnable_scale = Some (ones [1, 10, 1]),
             cn_learnable_shift = Some (zeros [1, 10, 1])\<rparr>"

text \<open>The same instance after its shared shift has moved from 0 to 1 at every channel,
  as a training step or \<open>norm.learnable_shift.shift.data.fill_(1.)\<close> leaves it.\<close>

definition shifted_doc_cn :: conditioned_norm where
  "shifted_doc_cn = doc_cn\<lparr>cn_learnable_shift := Some (ones [1, 10, 1])\<rparr>"

text \<open>\<open>ConditionedNorm(n_conditions=2, data_format='bct', shape=(None, 1, None),
  independent_axis=None, scale=False, statistics_axis='bt', momentum=0.5)\<close>, and a batch of
  two examples of one channel and two frames, the first of zeros and the second of twos.\<close>

definition pair_norm :: norm where
  "pair_norm =
     \<lparr>data_format = ''bct'', batch_axis = 0, sequence_axis = 2, statistics_axis = [0, 2],
      scale = Some False, eps = 1 / 100000, track_running_stats = True,
      num_tracked_values = Some (zeros [1, 1, 1]),
      running_mean = Some (zeros [1, 1, 1]),
      running_power = None,
      momentum = Some (1 / 2),
      learnable_scale = None, learnable_shift = None,
      n_freeze = None, training = True\<rparr>"

definition pair_cn :: conditioned_norm where
  "pair_cn = \<lparr>n_conditions = 2, norms = [pair_norm, pair_norm],
              cn_learnable_scale = None, cn_learnable_shift = None\<rparr>"

definition two_rows :: tensor where
  "two_rows = \<lparr>shape = [2, 1, 2], el = (\<lambda>i. if hd i = 0 then 0 else 2)\<rparr>"

section \<open>Properties\<close>

subsection \<open>Evaluation of the string functions\<close>

lemma lower_simps:
  "lower CHR ''b'' = CHR ''b''" "lower CHR ''c'' = CHR ''c''" "lower CHR ''t'' = CHR ''t''"
  "lower CHR ''f'' = CHR ''f''"
  by (simp_all add: lower_def)

subsection \<open>Broadcasting, masks and sums\<close>

lemma bdim_Some: "bdim a b = Some c \<Longrightarrow> (a = c \<or> a = 1) \<and> (b = c \<or> b = 1)"
  by (auto simp add: bdim_def split: if_splits)

lemma bdims_length: "bdims as bs = Some cs \<Longrightarrow> length bs = length as \<and> length cs = length as"
  by (induction as bs arbitrary: cs rule: bdims.induct) (auto split: option.splits)

lemma bdims_sub:
  "bdims as bs = Some cs \<Longrightarrow>
   list_all2 (\<lambda>d e. d = e \<or> d = 1) as cs \<and> list_all2 (\<lambda>d e. d = e \<or> d = 1) bs cs"
  by (induction as bs arbitrary: cs rule: bdims.induct)
     (auto split: option.splits dest: bdim_Some)

lemma bdims_self: "list_all2 (\<lambda>d e. d = e \<or> d = 1) bs as \<Longrightarrow> bdims as bs = Some as"
  by (induction bs as rule: list_all2_induct) (auto simp add: bdim_def)

lemma bdims_join:
  "list_all2 (\<lambda>d e. d = e \<or> d = 1) as ss \<Longrightarrow> list_all2 (\<lambda>d e. d = e \<or> d = 1) bs ss \<Longrightarrow>
   \<exists>cs. bdims as bs = Some cs \<and> list_all2 (\<lambda>d e. d = e \<or> d = 1) cs ss"
proof (induction as ss arbitrary: bs rule: list_all2_induct)
  case Nil
  then show ?case by simp
next
  case (Cons a as s ss)
  then obtain b bs' where bs: "bs = b # bs'" "b = s \<or> b = 1"
    "list_all2 (\<lambda>d e. d = e \<or> d = 1) bs' ss"
    by (auto simp add: list_all2_Cons2)
  obtain cs where cs: "bdims as bs' = Some cs" "list_all2 (\<lambda>d e. d = e \<or> d = 1) cs ss"
    using Cons.IH[OF bs(3)] by blast
  show ?case using Cons.hyps(1) bs cs by (auto simp add: bdim_def)
qed

lemma length_pad_shape: "length s \<le> n \<Longrightarrow> length (pad_shape n s) = n"
  by (simp add: pad_shape_def)

lemma pad_shape_sub:
  assumes "expandable a s" and "length a \<le> n" and "n \<le> length s"
  shows "list_all2 (\<lambda>d e. d = e \<or> d = 1) (pad_shape n a) (drop (length s - n) s)"
proof -
  let ?k = "n - length a"
  let ?s' = "drop (length s - n) s"
  have d: "drop ?k ?s' = drop (length s - length a) s"
    using assms by (simp add: add.commute)
  have t: "length (take ?k ?s') = ?k" using assms by simp
  have 1: "list_all2 (\<lambda>d e. d = e \<or> d = 1) (replicate ?k 1) (take ?k ?s')"
    using t by (simp add: list_all2_conv_all_nth)
  have 2: "list_all2 (\<lambda>d e. d = e \<or> d = 1) a (drop ?k ?s')"
    using assms(1) d by (simp add: expandable_def)
  have "list_all2 (\<lambda>d e. d = e \<or> d = 1) (replicate ?k 1 @ a) (take ?k ?s' @ drop ?k ?s')"
    using 1 2 by (rule list_all2_appendI)
  then have "list_all2 (\<lambda>d e. d = e \<or> d = 1) (replicate ?k 1 @ a) ?s'"
    by (simp only: append_take_drop_id)
  then show ?thesis by (simp only: pad_shape_def)
qed

lemma sub_pad_shape:
  assumes "list_all2 (\<lambda>d e. d = e \<or> d = 1) (pad_shape n a) c" and "length a \<le> n"
  shows "expandable a c"
proof -
  have l: "length c = n" using assms list_all2_lengthD[OF assms(1)] by (simp add: pad_shape_def)
  have "list_all2 (\<lambda>d e. d = e \<or> d = 1) (drop (n - length a) (pad_shape n a)) (drop (n - length a) c)"
    using assms(1) by (rule list_all2_dropI)
  then show ?thesis using l assms(2) by (simp add: expandable_def pad_shape_def)
qed

lemma broadcast_shapes_expandable:
  assumes "broadcast_shapes a b = Some c"
  shows "expandable a c" and "expandable b c" and "length c = max (length a) (length b)"
proof -
  let ?n = "max (length a) (length b)"
  have b: "bdims (pad_shape ?n a) (pad_shape ?n b) = Some c"
    using assms by (simp add: broadcast_shapes_def Let_def)
  show "expandable a c" using bdims_sub[OF b] by (auto intro: sub_pad_shape)
  show "expandable b c" using bdims_sub[OF b] by (auto intro: sub_pad_shape)
  show "length c = ?n" using bdims_length[OF b] by (simp add: length_pad_shape)
qed

lemma expandable_broadcast_self:
  assumes "expandable a s"
  shows "broadcast_shapes s a = Some s"
proof -
  have l: "length a \<le> length s" using assms by (simp add: expandable_def)
  have "list_all2 (\<lambda>d e. d = e \<or> d = 1) (pad_shape (length s) a) (drop (length s - length s) s)"
    using assms l by (intro pad_shape_sub) auto
  then have "bdims s (pad_shape (length s) a) = Some s"
    by (simp add: bdims_self)
  then show ?thesis using l by (simp add: broadcast_shapes_def Let_def max_absorb1 pad_shape_def)
qed

lemma expandable_refl: "expandable s s"
  by (simp add: expandable_def list_all2_conv_all_nth)

lemma expandable_broadcast:
  assumes "expandable a s" and "expandable b s"
  shows "\<exists>c. broadcast_shapes a b = Some c \<and> expandable c s"
proof -
  let ?n = "max (length a) (length b)"
  have n: "length a \<le> ?n" "length b \<le> ?n" "?n \<le> length s"
    using assms by (auto simp add: expandable_def)
  obtain c where c: "bdims (pad_shape ?n a) (pad_shape ?n b) = Some c"
    "list_all2 (\<lambda>d e. d = e \<or> d = 1) c (drop (length s - ?n) s)"
    using bdims_join[OF pad_shape_sub[OF assms(1) n(1) n(3)] pad_shape_sub[OF assms(2) n(2) n(3)]]
    by blast
  have l: "length c = ?n" using bdims_length[OF c(1)] n by (simp add: length_pad_shape)
  have "expandable c s" using c(2) l n(3) by (simp add: expandable_def)
  then show ?thesis using c(1) by (simp add: broadcast_shapes_def Let_def)
qed

lemma length_bidx: "length s \<le> length i \<Longrightarrow> length (bidx s i) = length s"
  by (simp add: bidx_def)

lemma bidx_same_length:
  "length i = length s \<Longrightarrow> bidx s i = map2 (\<lambda>d v. if d = 1 then 0 else v) s i"
  by (simp add: bidx_def)

lemma map2_sub:
  "list_all2 (\<lambda>d e. d = e \<or> d = 1) a c \<Longrightarrow> length i = length a \<Longrightarrow>
   map2 (\<lambda>d v. if d = 1 then 0 else v) a (map2 (\<lambda>d v. if d = 1 then (0::nat) else v) c i)
     = map2 (\<lambda>d v. if d = 1 then 0 else v) a i"
proof (induction a c arbitrary: i rule: list_all2_induct)
  case Nil
  then show ?case by simp
next
  case (Cons x xs y ys)
  then show ?case by (cases i) auto
qed

lemma bidx_bidx:
  assumes "expandable a c" and "length c \<le> length i"
  shows "bidx a (bidx c i) = bidx a i"
proof -
  let ?f = "\<lambda>d v. if d = 1 then (0::nat) else v"
  have l: "length a \<le> length c" using assms by (simp add: expandable_def)
  have "bidx a (bidx c i)
      = map2 ?f a (drop (length c - length a) (map2 ?f c (drop (length i - length c) i)))"
    using assms(2) by (simp add: bidx_def)
  also have "\<dots> = map2 ?f a (map2 ?f (drop (length c - length a) c)
                        (drop (length i - length a) i))"
    using l assms(2) by (simp add: drop_zip drop_map add.commute)
  also have "\<dots> = map2 ?f a (drop (length i - length a) i)"
    using assms l by (intro map2_sub) (auto simp add: expandable_def)
  finally show ?thesis by (simp add: bidx_def)
qed

lemma valid_idx_nth: "valid_idx s i \<longleftrightarrow> length i = length s \<and> (\<forall>k<length s. i ! k < s ! k)"
  by (auto simp add: valid_idx_def list_all2_conv_all_nth)

lemma bidx_id: "valid_idx s i \<Longrightarrow> bidx s i = i"
proof -
  assume v: "valid_idx s i"
  then have l: "length i = length s" by (simp add: valid_idx_nth)
  have "map2 (\<lambda>d v. if d = 1 then 0 else v) s i = i"
    using v l by (intro nth_equalityI) (auto simp add: valid_idx_nth)
  then show ?thesis using l by (simp add: bidx_same_length)
qed

lemma shape_unsqueeze_pow: "shape ((unsqueeze_last ^^ n) t) = shape t @ replicate n 1"
  by (induction n) (simp_all add: unsqueeze_last_def replicate_append_same)

lemma el_unsqueeze_pow: "el ((unsqueeze_last ^^ n) t) i = el t ((butlast ^^ n) i)"
proof (induction n arbitrary: i)
  case 0
  then show ?case by simp
next
  case (Suc n)
  have "el ((unsqueeze_last ^^ Suc n) t) i = el ((unsqueeze_last ^^ n) t) (butlast i)"
    by (simp add: unsqueeze_last_def)
  also have "\<dots> = el t ((butlast ^^ n) (butlast i))" by (rule Suc.IH)
  also have "\<dots> = el t ((butlast ^^ Suc n) i)" by (simp add: funpow_swap1)
  finally show ?case .
qed

lemma hd_butlast_pow: "n < length xs \<Longrightarrow> hd ((butlast ^^ n) xs) = hd xs"
proof (induction n arbitrary: xs)
  case 0
  then show ?case by simp
next
  case (Suc n)
  have "hd ((butlast ^^ Suc n) xs) = hd ((butlast ^^ n) (butlast xs))"
    by (simp add: funpow_swap1)
  also have "\<dots> = hd (butlast xs)" using Suc.prems by (intro Suc.IH) simp
  also have "\<dots> = hd xs" using Suc.prems by (cases xs) auto
  finally show ?case .
qed

lemma hd_bidx:
  assumes "length (d # ds) \<le> length i"
  shows "hd (bidx (d # ds) i) = (if d = 1 then 0 else i ! (length i - length (d # ds)))"
proof -
  have "drop (length i - length (d # ds)) i \<noteq> []" using assms by simp
  then obtain v vs where v: "drop (length i - length (d # ds)) i = v # vs"
    by (cases "drop (length i - length (d # ds)) i") auto
  have "v = i ! (length i - length (d # ds))"
    using v assms by (metis Suc_le_lessD diff_less hd_drop_conv_nth length_Cons list.sel(1) zero_less_Suc length_greater_0_conv list.size(3) not_less_eq_eq le_zero_eq)
  then show ?thesis using v by (simp add: bidx_def)
qed

lemma compute_mask_lengths:
  assumes m: "compute_mask st x (Some sl) = Inr m"
    and b: "batch_axis st < length (shape x)"
    and l: "length sl = shape x ! batch_axis st"
  shows "shape m = shape x"
    and "valid_idx (shape x) i \<Longrightarrow>
           el m i = (if int (i ! sequence_axis st) < sl ! (i ! batch_axis st) then 1 else 0)"
proof -
  let ?r = "length (shape x)"
  let ?sa = "sequence_axis st"
  let ?ba = "batch_axis st"
  let ?seq = "(unsqueeze_last ^^ (?r - (?ba + 1))) (of_ints sl)"
  let ?idx = "(unsqueeze_last ^^ (?r - (?sa + 1))) (arange (shape x ! ?sa))"
  let ?lt = "\<lambda>a b :: real. if a < b then 1 else (0 :: real)"
  have sa: "?sa < ?r"
    using m by (auto simp add: compute_mask_def Let_def split: if_splits)
  obtain c where c: "tbin ?lt ?idx ?seq = Inr c" and e: "expand (shape x) c = Inr m"
    using m sa by (auto simp add: compute_mask_def Let_def bindE_def split: sum.splits)
  obtain sc where sc: "broadcast_shapes (shape ?idx) (shape ?seq) = Some sc"
    and cdef: "c = \<lparr>shape = sc, el = (\<lambda>i. ?lt (el ?idx (bidx (shape ?idx) i))
                                               (el ?seq (bidx (shape ?seq) i)))\<rparr>"
    using c by (auto simp add: tbin_def split: option.splits)
  have ex: "expandable sc (shape x)" and mdef: "m = \<lparr>shape = shape x, el = (\<lambda>i. el c (bidx (shape c) i))\<rparr>"
    using e cdef by (auto simp add: expand_def split: if_splits)
  show "shape m = shape x" using mdef by simp
  assume v: "valid_idx (shape x) i"
  then have li: "length i = ?r" and lt: "\<And>k. k < ?r \<Longrightarrow> i ! k < shape x ! k"
    by (simp_all add: valid_idx_nth)
  have lc: "length sc \<le> length i" using ex li by (simp add: expandable_def)
  have shi: "shape ?idx = (shape x ! ?sa) # replicate (?r - (?sa + 1)) 1"
    by (simp add: shape_unsqueeze_pow arange_def)
  have shs: "shape ?seq = length sl # replicate (?r - (?ba + 1)) 1"
    by (simp add: shape_unsqueeze_pow of_ints_def)
  have 1: "bidx (shape ?idx) (bidx sc i) = bidx (shape ?idx) i"
    using broadcast_shapes_expandable(1)[OF sc] lc by (rule bidx_bidx)
  have 2: "bidx (shape ?seq) (bidx sc i) = bidx (shape ?seq) i"
    using broadcast_shapes_expandable(2)[OF sc] lc by (rule bidx_bidx)
  have lbi: "length (bidx (shape ?idx) i) = ?r - ?sa"
    unfolding shi using sa li by (subst length_bidx) auto
  have lbs: "length (bidx (shape ?seq) i) = ?r - ?ba"
    unfolding shs using b li by (subst length_bidx) auto
  have hi: "hd (bidx (shape ?idx) i) = i ! ?sa"
    using sa li lt[OF sa] unfolding shi by (subst hd_bidx) auto
  have hs: "hd (bidx (shape ?seq) i) = i ! ?ba"
    using b li lt[OF b] l unfolding shs by (subst hd_bidx) auto
  have ei: "el ?idx (bidx (shape ?idx) i) = real (i ! ?sa)"
    using lbi sa hi by (simp add: el_unsqueeze_pow arange_def hd_butlast_pow)
  have es: "el ?seq (bidx (shape ?seq) i) = real_of_int (sl ! (i ! ?ba))"
    using lbs b hs by (simp add: el_unsqueeze_pow of_ints_def hd_butlast_pow)
  have "el m i = ?lt (real (i ! ?sa)) (real_of_int (sl ! (i ! ?ba)))"
    using 1 2 ei es by (simp add: mdef cdef)
  also have "\<dots> = (if int (i ! ?sa) < sl ! (i ! ?ba) then 1 else 0)"
    by (metis of_int_less_iff of_int_of_nat_eq)
  finally show "el m i = (if int (i ! ?sa) < sl ! (i ! ?ba) then 1 else 0)" .
qed

lemma shape_tmap [simp]: "shape (tmap f a) = shape a"
  by (simp add: tmap_def)

lemma el_tmap [simp]: "el (tmap f a) i = f (el a i)"
  by (simp add: tmap_def)

lemma shape_ones_like [simp]: "shape (ones_like t) = shape t"
  by (simp add: ones_like_def ones_def full_def)

lemma el_ones_like [simp]: "el (ones_like t) i = 1"
  by (simp add: ones_like_def ones_def full_def)

lemma tbin_Inr:
  "tbin f a b = Inr c \<longleftrightarrow>
     (\<exists>s. broadcast_shapes (shape a) (shape b) = Some s \<and>
          c = \<lparr>shape = s, el = (\<lambda>i. f (el a (bidx (shape a) i)) (el b (bidx (shape b) i)))\<rparr>)"
  by (auto simp add: tbin_def split: option.splits)

lemma tbin_shape_fit:
  assumes "tbin f a b = Inr c" and "expandable (shape b) (shape a)"
  shows "shape c = shape a"
  using assms expandable_broadcast_self[OF assms(2)] by (auto simp add: tbin_Inr)

lemma tbin_expandable:
  assumes "tbin f a b = Inr c" and "expandable (shape a) s" and "expandable (shape b) s"
  shows "expandable (shape c) s"
  using assms(1) expandable_broadcast[OF assms(2,3)] by (auto simp add: tbin_Inr)

lemma tbin_succeeds:
  assumes "expandable (shape a) s" and "expandable (shape b) s"
  shows "\<exists>c. tbin f a b = Inr c"
  using expandable_broadcast[OF assms] by (auto simp add: tbin_Inr)

lemma tbin_el:
  assumes "tbin f a b = Inr c"
  shows "el c i = f (el a (bidx (shape a) i)) (el b (bidx (shape b) i))"
  using assms by (auto simp add: tbin_Inr)

lemma length_reduced_dims [simp]: "length (reduced_dims ax s) = length s"
  by (simp add: reduced_dims_def)

lemma nth_reduced_dims:
  "k < length s \<Longrightarrow> reduced_dims ax s ! k = (if k \<in> set ax then 1 else s ! k)"
  by (simp add: reduced_dims_def nth_enumerate_eq)

lemma expandable_reduced_dims: "expandable (reduced_dims ax s) s"
  by (simp add: expandable_def list_all2_conv_all_nth nth_reduced_dims)

lemma tsum_expandable: "tsum axes t = Inr r \<Longrightarrow> expandable (shape r) (shape t)"
  by (auto simp add: tsum_def Let_def expandable_reduced_dims split: if_splits)

lemma unbiased_var_expandable:
  assumes "unbiased_var n p m = Inr v"
    and "expandable (shape n) s" and "expandable (shape p) s" and "expandable (shape m) s"
  shows "expandable (shape v) s"
proof -
  obtain n' c d where 1: "tbin max n (tmap (\<lambda>v. 2 * v) (ones_like n)) = Inr n'"
    and 2: "tbin (/) n' (tmap (\<lambda>v. v - 1) n') = Inr c"
    and 3: "tbin (-) p (tmap (\<lambda>v. v\<^sup>2) m) = Inr d"
    and 4: "tbin (*) c d = Inr v"
    using assms(1) by (auto simp add: unbiased_var_def bindE_def split: sum.splits)
  have n': "expandable (shape n') s" using tbin_expandable[OF 1] assms(2) by simp
  have c: "expandable (shape c) s" using tbin_expandable[OF 2] n' by simp
  have d: "expandable (shape d) s" using tbin_expandable[OF 3] assms(3,4) by simp
  show ?thesis using tbin_expandable[OF 4 c d] .
qed

lemma compute_stats_expandable:
  assumes "compute_stats st x msk = Inr (mean, pwr, n)" and "shape msk = shape x"
  shows "expandable (shape mean) (shape x)" and "expandable (shape n) (shape x)"
    and "pwr = Some p \<Longrightarrow> expandable (shape p) (shape x)"
proof -
  obtain xm sm d where n: "tsum (statistics_axis st) msk = Inr n"
    and xm: "tbin (*) x msk = Inr xm"
    and sm: "tsum (statistics_axis st) xm = Inr sm"
    and d: "tbin max n (ones_like n) = Inr d"
    and mean: "tbin (/) sm d = Inr mean"
    using assms(1)
    by (auto simp add: compute_stats_def bindE_def split: sum.splits if_splits)
  have sxm: "shape xm = shape x"
    using tbin_shape_fit[OF xm] assms(2) by (simp add: expandable_refl)
  show en: "expandable (shape n) (shape x)" using tsum_expandable[OF n] assms(2) by simp
  have esm: "expandable (shape sm) (shape x)" using tsum_expandable[OF sm] sxm by simp
  have ed: "expandable (shape d) (shape x)" using tbin_expandable[OF d] en by simp
  show "expandable (shape mean) (shape x)" using tbin_expandable[OF mean esm ed] .
  assume p: "pwr = Some p"
  then obtain q d' where q: "tsum (statistics_axis st) (tmap (\<lambda>v. v\<^sup>2) xm) = Inr q"
    and d': "tbin max n (ones_like n) = Inr d'" and pw: "tbin (/) q d' = Inr p"
    using assms(1) n xm sm d mean
    by (auto simp add: compute_stats_def bindE_def split: sum.splits if_splits)
  have eq: "expandable (shape q) (shape x)" using tsum_expandable[OF q] sxm by simp
  have ed': "expandable (shape d') (shape x)" using tbin_expandable[OF d'] en by simp
  show "expandable (shape p) (shape x)" using tbin_expandable[OF pw eq ed'] .
qed

lemma normalize_batch_shape:
  assumes "normalize_batch st x mean pwr n = Inr x1"
    and "expandable (shape mean) (shape x)" and "expandable (shape n) (shape x)"
    and "\<And>p. pwr = Some p \<Longrightarrow> expandable (shape p) (shape x)"
  shows "shape x1 = shape x"
proof -
  obtain x0 where x0: "tbin (-) x mean = Inr x0"
    using assms(1) by (auto simp add: normalize_batch_def bindE_def split: sum.splits)
  have s0: "shape x0 = shape x" using tbin_shape_fit[OF x0 assms(2)] .
  show ?thesis
  proof (cases "truthy (scale st)")
    case False
    then show ?thesis using assms(1) x0 s0 by (simp add: normalize_batch_def bindE_def)
  next
    case True
    then obtain p var where p: "pwr = Some p" and var: "unbiased_var n p mean = Inr var"
      and x1: "tbin (/) x0 (tmap (\<lambda>v. sqrt v + eps st) var) = Inr x1"
      using assms(1) x0
      by (auto simp add: normalize_batch_def bindE_def split: sum.splits option.splits)
    have "expandable (shape var) (shape x)"
      using unbiased_var_expandable[OF var assms(3) assms(4)[OF p] assms(2)] .
    then show ?thesis using tbin_shape_fit[OF x1] s0 by simp
  qed
qed

lemma normalize_running_shape:
  assumes "normalize_running st x = Inr x1" and "conforms st x"
  shows "shape x1 = shape x"
proof -
  obtain rm x0 where rm: "running_mean st = Some rm" and x0: "tbin (-) x rm = Inr x0"
    using assms(1) by (auto simp add: normalize_running_def bindE_def split: sum.splits option.splits)
  have erm: "expandable (shape rm) (shape x)" using assms(2) rm by (simp add: conforms_def fits_def)
  have s0: "shape x0 = shape x" using tbin_shape_fit[OF x0 erm] .
  show ?thesis
  proof (cases "truthy (scale st)")
    case False
    then show ?thesis using assms(1) rm x0 s0 by (simp add: normalize_running_def bindE_def)
  next
    case True
    then obtain ntv rp var where ntv: "num_tracked_values st = Some ntv"
      and rp: "running_power st = Some rp" and var: "unbiased_var ntv rp rm = Inr var"
      and x1: "tbin (/) x0 (tmap (\<lambda>v. sqrt v + eps st) var) = Inr x1"
      using assms(1) x0 rm
      by (auto simp add: normalize_running_def bindE_def split: sum.splits option.splits)
    have "expandable (shape var) (shape x)"
      using unbiased_var_expandable[OF var] assms(2) ntv rp erm by (simp add: conforms_def fits_def)
    then show ?thesis using tbin_shape_fit[OF x1] s0 by simp
  qed
qed

lemma affine_and_mask_shape:
  assumes "affine_and_mask st x1 msk = Inr y"
    and "fits (shape x1) (learnable_scale st)" and "fits (shape x1) (learnable_shift st)"
    and "shape msk = shape x1"
  shows "shape y = shape x1"
proof -
  obtain x2 x3 where
    x2: "(case learnable_scale st of None \<Rightarrow> Inr x1 | Some sc \<Rightarrow> Scale_forward sc x1) = Inr x2"
    and x3: "(case learnable_shift st of None \<Rightarrow> Inr x2 | Some sh \<Rightarrow> Shift_forward sh x2) = Inr x3"
    and y: "tbin (*) x3 msk = Inr y"
    using assms(1) by (auto simp add: affine_and_mask_def bindE_def split: sum.splits)
  have s2: "shape x2 = shape x1"
    using x2 assms(2) by (auto simp add: fits_def Scale_forward_def split: option.splits dest: tbin_shape_fit)
  have s3: "shape x3 = shape x1"
    using x3 assms(3) s2 by (auto simp add: fits_def Shift_forward_def split: option.splits dest: tbin_shape_fit)
  show ?thesis using tbin_shape_fit[OF y] s3 assms(4) by (simp add: expandable_refl)
qed

lemma affine_and_mask_zero:
  assumes "affine_and_mask st x1 msk = Inr y" and "valid_idx (shape msk) i" and "el msk i = 0"
  shows "el y i = 0"
proof -
  obtain x3 where y: "tbin (*) x3 msk = Inr y"
    using assms(1) by (auto simp add: affine_and_mask_def bindE_def split: sum.splits)
  show ?thesis using tbin_el[OF y, of i] assms(2,3) by (simp add: bidx_id)
qed

lemma rsum_add: "rsum k ax s j (\<lambda>i. f i + g i) = rsum k ax s j f + rsum k ax s j g"
  by (induction k ax s j f arbitrary: g rule: rsum.induct)
     (simp_all add: interv_sum_list_conv_sum_set_nat sum.distrib)

lemma rsum_cmult: "rsum k ax s j (\<lambda>i. c * f i) = c * rsum k ax s j f"
  by (induction k ax s j f rule: rsum.induct)
     (simp_all add: interv_sum_list_conv_sum_set_nat sum_distrib_left)

lemma rsum_nonneg: "(\<And>i. 0 \<le> f i) \<Longrightarrow> 0 \<le> rsum k ax s j f"
  by (induction k ax s j f rule: rsum.induct)
     (auto simp add: interv_sum_list_conv_sum_set_nat intro!: sum_nonneg)

lemma kept_ok_Cons:
  "kept_ok k ax (d # ds) j \<Longrightarrow> kept_ok (Suc k) ax ds (tl j) \<and> (k \<notin> set ax \<longrightarrow> hd j < d)"
proof (cases j)
  case Nil
  assume "kept_ok k ax (d # ds) j"
  then show ?thesis using Nil by (simp add: kept_ok_def)
next
  case (Cons a as)
  assume ko: "kept_ok k ax (d # ds) j"
  have l: "length as = length ds" using ko Cons by (simp add: kept_ok_def)
  have all: "\<And>n. n < Suc (length ds) \<Longrightarrow> k + n \<notin> set ax \<Longrightarrow> (a # as) ! n < (d # ds) ! n"
    using ko Cons by (simp add: kept_ok_def)
  have "\<And>n. n < length ds \<Longrightarrow> Suc k + n \<notin> set ax \<Longrightarrow> as ! n < ds ! n"
    using all[of "Suc _"] by simp
  moreover have "k \<notin> set ax \<Longrightarrow> a < d" using all[of 0] by simp
  ultimately show ?thesis using l Cons by (simp add: kept_ok_def)
qed

lemma rsum_cong:
  assumes "\<And>i. valid_idx s i \<Longrightarrow> f i = g i" and "kept_ok k ax s j"
  shows "rsum k ax s j f = rsum k ax s j g"
  using assms
proof (induction k ax s j f arbitrary: g rule: rsum.induct)
  case (1 k axes j f)
  then show ?case by (simp add: valid_idx_def)
next
  case (2 k axes d ds j f)
  have ko: "kept_ok (Suc k) axes ds (tl j)" and hd: "k \<notin> set axes \<Longrightarrow> hd j < d"
    using kept_ok_Cons[OF "2.prems"(2)] by auto
  show ?case
  proof (cases "k \<in> set axes")
    case True
    have "\<And>a. a \<in> set [0..<d] \<Longrightarrow>
        rsum (Suc k) axes ds (tl j) (\<lambda>i. f (a # i)) = rsum (Suc k) axes ds (tl j) (\<lambda>i. g (a # i))"
    proof -
      fix a assume a: "a \<in> set [0..<d]"
      show "rsum (Suc k) axes ds (tl j) (\<lambda>i. f (a # i)) = rsum (Suc k) axes ds (tl j) (\<lambda>i. g (a # i))"
        using True a "2.prems"(1) ko
        by (intro "2.IH"(1)) (auto simp add: valid_idx_def)
    qed
    then show ?thesis using True by (simp add: interv_sum_list_conv_sum_set_nat)
  next
    case False
    have "rsum (Suc k) axes ds (tl j) (\<lambda>i. f (hd j # i)) = rsum (Suc k) axes ds (tl j) (\<lambda>i. g (hd j # i))"
      using False hd "2.prems"(1) ko
      by (intro "2.IH"(2)) (auto simp add: valid_idx_def)
    then show ?thesis using False by simp
  qed
qed

lemma rsum_cauchy_schwarz:
  assumes m: "\<And>i. m i = 0 \<or> m i = (1::real)"
  shows "(rsum k ax s j (\<lambda>i. x i * m i))\<^sup>2
           \<le> rsum k ax s j m * rsum k ax s j (\<lambda>i. (x i * m i)\<^sup>2)"
proof -
  let ?N = "rsum k ax s j m"
  let ?S = "rsum k ax s j (\<lambda>i. x i * m i)"
  let ?Q = "rsum k ax s j (\<lambda>i. (x i * m i)\<^sup>2)"
  have quad: "0 \<le> ?Q - 2 * \<mu> * ?S + \<mu>\<^sup>2 * ?N" for \<mu>
  proof -
    have e: "m i * (x i - \<mu>)\<^sup>2 = (x i * m i)\<^sup>2 + ((- 2 * \<mu>) * (x i * m i) + \<mu>\<^sup>2 * m i)" for i
      using m[of i] by (auto simp add: power2_eq_square algebra_simps)
    have "0 \<le> rsum k ax s j (\<lambda>i. m i * (x i - \<mu>)\<^sup>2)"
      using m by (intro rsum_nonneg) (metis mult_nonneg_nonneg zero_le_one order_refl zero_le_power2)
    also have "\<dots> = rsum k ax s j (\<lambda>i. (x i * m i)\<^sup>2 + ((- 2 * \<mu>) * (x i * m i) + \<mu>\<^sup>2 * m i))"
      by (simp only: e)
    also have "\<dots> = ?Q + ((- 2 * \<mu>) * ?S + \<mu>\<^sup>2 * ?N)"
      by (simp only: rsum_add rsum_cmult)
    finally show ?thesis by simp
  qed
  have N0: "0 \<le> ?N" using m by (intro rsum_nonneg) (metis order_refl zero_le_one)
  show ?thesis
  proof (cases "?N = 0")
    case True
    have "?S = 0"
    proof (rule ccontr)
      assume S: "?S \<noteq> 0"
      have "0 \<le> ?Q - 2 * ((?Q + 1) / (2 * ?S)) * ?S + ((?Q + 1) / (2 * ?S))\<^sup>2 * ?N"
        by (rule quad)
      then show False using S True by simp
    qed
    then show ?thesis using True by simp
  next
    case False
    then have N: "0 < ?N" using N0 by simp
    have "0 \<le> ?Q - 2 * (?S / ?N) * ?S + (?S / ?N)\<^sup>2 * ?N" by (rule quad)
    also have "\<dots> = ?Q - ?S\<^sup>2 / ?N" using N by (simp add: power2_eq_square field_simps)
    finally have "?S\<^sup>2 / ?N \<le> ?Q" by simp
    then show ?thesis using N by (simp add: field_simps)
  qed
qed

lemma rsum_power_nonneg: "0 \<le> rsum k ax s j (\<lambda>i. (f i)\<^sup>2)"
  by (intro rsum_nonneg) simp

lemma clamped_var_nonneg:
  fixes N S Q :: real
  assumes "S\<^sup>2 \<le> N * Q" and "0 \<le> Q" and "0 \<le> N"
  shows "0 \<le> max N 2 / (max N 2 - 1) * (Q / max N 1 - (S / max N 1)\<^sup>2)"
proof -
  let ?D = "max N 1"
  have D: "1 \<le> ?D" "N \<le> ?D" by simp_all
  have "S\<^sup>2 \<le> ?D * Q" using assms D by (meson mult_right_mono order_trans)
  moreover have D0: "0 < ?D" by simp
  ultimately have "S\<^sup>2 / ?D\<^sup>2 \<le> Q / ?D"
    by (simp add: power2_eq_square field_simps del: max.bounded_iff less_max_iff_disj)
  then have 1: "0 \<le> Q / ?D - (S / ?D)\<^sup>2" by (simp add: power_divide)
  have "0 \<le> max N 2 / (max N 2 - 1)" by simp
  then show ?thesis using 1 by (rule mult_nonneg_nonneg)
qed

lemma tbin_same_shape:
  assumes "shape a = r" and "shape b = r"
  shows "tbin f a b = Inr \<lparr>shape = r, el = (\<lambda>i. f (el a (bidx r i)) (el b (bidx r i)))\<rparr>"
  using assms expandable_broadcast_self[OF expandable_refl[of r]] by (simp add: tbin_def)

lemma tbin_fit:
  assumes "shape a = s" and "shape b = r" and "expandable r s"
  shows "tbin f a b = Inr \<lparr>shape = s, el = (\<lambda>i. f (el a (bidx s i)) (el b (bidx r i)))\<rparr>"
  using assms expandable_broadcast_self[OF assms(3)] by (simp add: tbin_def)

lemma tsum_ok:
  assumes "axes_ok st x" and "shape t = shape x"
  shows "tsum (statistics_axis st) t =
           Inr \<lparr>shape = stat_shape st x,
                el = (\<lambda>j. rsum 0 (stat_axes st x) (shape x) j (el t))\<rparr>"
  using assms
  by (auto simp add: tsum_def axes_ok_def stat_shape_def stat_axes_def Let_def not_le)

lemma valid_stat_kept_ok:
  assumes "valid_idx (stat_shape st x) j"
  shows "kept_ok 0 (stat_axes st x) (shape x) j"
  using assms
  by (auto simp add: valid_idx_nth stat_shape_def kept_ok_def nth_reduced_dims split: if_splits)

lemma rsum_masked:
  assumes "valid_idx (stat_shape st x) j" and "shape msk = shape x"
    and "\<And>i. g i = h (el x (bidx (shape x) i) * el msk (bidx (shape msk) i))"
  shows "rsum 0 (stat_axes st x) (shape x) j g
       = rsum 0 (stat_axes st x) (shape x) j (\<lambda>i. h (el x i * el msk i))"
  using assms(2,3) by (intro rsum_cong valid_stat_kept_ok[OF assms(1)]) (simp add: bidx_id)

lemma compute_stats_succeeds:
  assumes ax: "axes_ok st x" and sm: "shape msk = shape x"
  shows "\<exists>mean pwr n. compute_stats st x msk = Inr (mean, pwr, n)
     \<and> shape mean = stat_shape st x \<and> shape n = stat_shape st x
     \<and> (\<forall>j. valid_idx (stat_shape st x) j \<longrightarrow>
           el n j = count_at st x msk j
         \<and> el mean j = sum_at st x msk j / max (count_at st x msk j) 1)
     \<and> (if truthy (scale st)
        then \<exists>p. pwr = Some p \<and> shape p = stat_shape st x
               \<and> (\<forall>j. valid_idx (stat_shape st x) j \<longrightarrow>
                      el p j = sqsum_at st x msk j / max (count_at st x msk j) 1)
        else pwr = None)"
proof -
  let ?r = "stat_shape st x"
  let ?ax = "stat_axes st x"
  define n where "n = \<lparr>shape = ?r, el = (\<lambda>j. rsum 0 ?ax (shape x) j (el msk))\<rparr>"
  define xm where "xm = \<lparr>shape = shape x,
      el = (\<lambda>i. el x (bidx (shape x) i) * el msk (bidx (shape x) i))\<rparr>"
  define s where "s = \<lparr>shape = ?r, el = (\<lambda>j. rsum 0 ?ax (shape x) j (el xm))\<rparr>"
  define d where "d = \<lparr>shape = ?r, el = (\<lambda>i. max (el n (bidx ?r i)) (el (ones_like n) (bidx ?r i)))\<rparr>"
  define mean where "mean = \<lparr>shape = ?r, el = (\<lambda>i. el s (bidx ?r i) / el d (bidx ?r i))\<rparr>"
  define q where "q = \<lparr>shape = ?r, el = (\<lambda>j. rsum 0 ?ax (shape x) j (el (tmap (\<lambda>v. v\<^sup>2) xm)))\<rparr>"
  define p where "p = \<lparr>shape = ?r, el = (\<lambda>i. el q (bidx ?r i) / el d (bidx ?r i))\<rparr>"
  have 1: "tsum (statistics_axis st) msk = Inr n"
    using tsum_ok[OF ax sm] by (simp add: n_def)
  have 2: "tbin (*) x msk = Inr xm"
    using tbin_same_shape[of x "shape x" msk "(*)"] sm by (simp add: xm_def)
  have 3: "tsum (statistics_axis st) xm = Inr s"
    using tsum_ok[OF ax, of xm] by (simp add: s_def xm_def)
  have 4: "tbin max n (ones_like n) = Inr d"
    using tbin_same_shape[of n ?r "ones_like n" max] by (simp add: d_def n_def)
  have 5: "tbin (/) s d = Inr mean"
    using tbin_same_shape[of s ?r d "(/)"] by (simp add: mean_def s_def d_def)
  have 6: "tsum (statistics_axis st) (tmap (\<lambda>v. v\<^sup>2) xm) = Inr q"
    using tsum_ok[OF ax, of "tmap (\<lambda>v. v\<^sup>2) xm"] by (simp add: q_def xm_def)
  have 7: "tbin (/) q d = Inr p"
    using tbin_same_shape[of q ?r d "(/)"] by (simp add: p_def q_def d_def)
  have cs: "compute_stats st x msk =
              (if truthy (scale st) then Inr (mean, Some p, n) else Inr (mean, None, n))"
    by (simp add: compute_stats_def bindE_def 1 2 3 4 5 6 7)
  have en: "el n j = count_at st x msk j" for j
    by (simp add: n_def count_at_def)
  have ed: "valid_idx ?r j \<Longrightarrow> el d j = max (count_at st x msk j) 1" for j
    by (simp add: d_def bidx_id en)
  have es: "valid_idx ?r j \<Longrightarrow> el s j = sum_at st x msk j" for j
    unfolding s_def sum_at_def
    using rsum_masked[of st x j msk "el xm" "\<lambda>v. v"] sm by (simp add: xm_def)
  have eq: "valid_idx ?r j \<Longrightarrow> el q j = sqsum_at st x msk j" for j
    unfolding q_def sqsum_at_def
    using rsum_masked[of st x j msk "el (tmap (\<lambda>v. v\<^sup>2) xm)" "\<lambda>v. v\<^sup>2"] sm by (simp add: xm_def)
  have em: "valid_idx ?r j \<Longrightarrow> el mean j = sum_at st x msk j / max (count_at st x msk j) 1" for j
    by (simp add: mean_def bidx_id es ed)
  have ep: "valid_idx ?r j \<Longrightarrow> el p j = sqsum_at st x msk j / max (count_at st x msk j) 1" for j
    by (simp add: p_def bidx_id eq ed)
  have sh: "shape mean = ?r" "shape n = ?r" "shape p = ?r"
    by (simp_all add: mean_def n_def p_def)
  show ?thesis
  proof (cases "truthy (scale st)")
    case True
    then show ?thesis using cs sh en em ep by auto
  next
    case False
    then show ?thesis using cs sh en em by auto
  qed
qed

subsection \<open>What a forward call may change\<close>

lemma update_running_stats_frame:
  "update_running_stats st mean pwr n_values = (st', r) \<Longrightarrow>
   st'\<lparr>num_tracked_values := num_tracked_values st, running_mean := running_mean st,
      running_power := running_power st\<rparr> = st"
proof -
  have "fst (update_running_stats st mean pwr n_values)
     \<lparr>num_tracked_values := num_tracked_values st, running_mean := running_mean st,
      running_power := running_power st\<rparr> = st"
    by (simp add: update_running_stats_def Let_def split: option.splits sum.splits)
  then show "update_running_stats st mean pwr n_values = (st', r) \<Longrightarrow>
   st'\<lparr>num_tracked_values := num_tracked_values st, running_mean := running_mean st,
      running_power := running_power st\<rparr> = st"
    by simp
qed

lemma forward_estimate_frame:
  "fst (forward_estimate st x msk)
     \<lparr>num_tracked_values := num_tracked_values st, running_mean := running_mean st,
      running_power := running_power st\<rparr> = st"
  by (auto simp add: forward_estimate_def update_running_stats_frame
      split: sum.splits prod.splits option.splits)

lemma forward_estimate_untracked:
  "\<not> track_running_stats st \<Longrightarrow> fst (forward_estimate st x msk) = st"
  by (auto simp add: forward_estimate_def split: sum.splits prod.splits option.splits)

lemma fst_forward:
  "fst (forward st x sl) =
     (case compute_mask st x sl of
        Inl e \<Rightarrow> st
      | Inr msk \<Rightarrow>
          (case estimate_mode st of
             Inl e \<Rightarrow> st
           | Inr est \<Rightarrow> if est then fst (forward_estimate st x msk) else st))"
  by (auto simp add: forward_def split: sum.splits prod.splits)

lemma forward_replay:
  "estimate_mode st = Inr False \<Longrightarrow>
   forward st x sl =
     (st, bindE (compute_mask st x sl) (\<lambda>msk.
          bindE (normalize_running st x) (\<lambda>x1. affine_and_mask st x1 msk)))"
  by (auto simp add: forward_def bindE_def split: sum.splits)

text \<open>
  Claim C10. Whatever the input and whether the call returns or raises, \<open>Norm.forward\<close>
  leaves every field of the instance but \<open>num_tracked_values\<close>, \<open>running_mean\<close> and
  \<open>running_power\<close> as it was: the learnable scale and shift and the configuration are
  unchanged. Where the running statistics are not tracked, or the call takes the branch
  that replays them, the instance is unchanged altogether.
\<close>

theorem forward_frame:
  "fst (forward st x sl)
     \<lparr>num_tracked_values := num_tracked_values st, running_mean := running_mean st,
      running_power := running_power st\<rparr> = st
   \<and> (\<not> track_running_stats st \<or> estimate_mode st = Inr False \<longrightarrow>
        fst (forward st x sl) = st)"
  using forward_estimate_frame[of st x] forward_estimate_untracked[of st x]
  by (auto simp add: fst_forward split: sum.splits)

theorem forward_frame_witness:
  "\<not> track_running_stats untracked_norm
   \<and> fst (forward untracked_norm (full [3, 2, 4] 2) (Some [1, 2, 3])) = untracked_norm"
  using forward_frame[of untracked_norm "full [3, 2, 4] 2" "Some [1, 2, 3]"]
  by (simp add: untracked_norm_def)

subsection \<open>Freezing\<close>

lemma freezed_True_iff:
  "freezed st = Inr True \<longleftrightarrow>
     (\<exists>nf ntv m. n_freeze st = Some nf \<and> track_running_stats st \<and>
        num_tracked_values st = Some ntv \<and> tmax_item ntv = Inr m \<and> nf \<le> m)"
  by (auto simp add: freezed_def bindE_def split: option.splits sum.splits)

lemma freezed_training [simp]: "freezed (st\<lparr>training := tr\<rparr>) = freezed st"
  by (simp add: freezed_def split: option.splits)

lemma freezed_estimate_mode:
  "freezed st = Inr True \<Longrightarrow> estimate_mode st = Inr False"
  by (auto simp add: estimate_mode_def bindE_def freezed_def split: option.splits if_splits)

lemma run_calls_frozen:
  "freezed st = Inr True \<Longrightarrow> \<exists>tr. run_calls st cs = st\<lparr>training := tr\<rparr>"
proof (induction cs arbitrary: st)
  case Nil
  have "st = st\<lparr>training := training st\<rparr>" by simp
  then show ?case by (metis run_calls.simps(1))
next
  case (Cons c cs)
  obtain tr x sl where c: "c = (tr, x, sl)" by (cases c) auto
  let ?st = "st\<lparr>training := tr\<rparr>"
  have f: "freezed ?st = Inr True" using Cons.prems by simp
  then have "fst (forward ?st x sl) = ?st"
    by (simp add: forward_replay freezed_estimate_mode)
  then have "run_calls st (c # cs) = run_calls ?st cs" by (simp add: c)
  moreover obtain tr' where "run_calls ?st cs = ?st\<lparr>training := tr'\<rparr>"
    using Cons.IH[OF f] by blast
  ultimately show ?case by (intro exI[of _ tr']) simp
qed

lemma tmax_item_frozen: "tmax_item (full [1, 2, 1] 6) = Inr 6"
  by (simp add: tmax_item_def full_def upt_rec)

text \<open>
  Claim C5. With a freeze threshold set, the running statistics tracked and the maximum
  of the count at or above the threshold, a \<open>forward\<close> call leaves the instance as it is
  and computes the branch that replays the running statistics, in training mode too;
  so after any sequence of calls, each in the mode the caller chooses, the count, the
  running mean and the running power are what they were.
\<close>

theorem frozen_forward_replays:
  assumes "n_freeze st = Some nf" and "track_running_stats st"
    and "num_tracked_values st = Some ntv" and "tmax_item ntv = Inr m" and "nf \<le> m"
  shows "forward st x sl =
           (st, bindE (compute_mask st x sl) (\<lambda>msk.
                bindE (normalize_running st x) (\<lambda>x1. affine_and_mask st x1 msk)))
         \<and> num_tracked_values (run_calls st cs) = num_tracked_values st
         \<and> running_mean (run_calls st cs) = running_mean st
         \<and> running_power (run_calls st cs) = running_power st"
proof -
  have f: "freezed st = Inr True"
    using assms by (auto simp add: freezed_True_iff)
  obtain tr where "run_calls st cs = st\<lparr>training := tr\<rparr>"
    using run_calls_frozen[OF f] by blast
  then show ?thesis
    using f by (simp add: forward_replay freezed_estimate_mode)
qed

theorem frozen_forward_replays_witness:
  "training frozen_norm
   \<and> num_tracked_values (run_calls frozen_norm [(True, full [3, 2, 4] 2, Some [1, 2, 3])])
       = Some (full [1, 2, 1] 6)
   \<and> running_mean (run_calls frozen_norm [(True, full [3, 2, 4] 2, Some [1, 2, 3])])
       = Some (full [1, 2, 1] 1)
   \<and> running_power (run_calls frozen_norm [(True, full [3, 2, 4] 2, Some [1, 2, 3])])
       = Some (full [1, 2, 1] (5 / 2))"
  using frozen_forward_replays[where st = frozen_norm and nf = 5 and ntv = "full [1, 2, 1] 6"
      and m = 6 and cs = "[(True, full [3, 2, 4] 2, Some [1, 2, 3])]"]
    tmax_item_frozen
  by (simp add: frozen_norm_def)

subsection \<open>Resetting\<close>

text \<open>
  Claim C4. The claim says that \<open>reset_running_stats\<close> returns for every configuration.
  The instance below is built with \<open>scale=False\<close> and tracks its running statistics, so
  it has no \<open>running_power\<close> buffer; the test \<open>self.scale is not None\<close> of line 191 holds
  for \<open>False\<close>, and \<open>reset_running_stats\<close>, and with it \<open>reset_parameters\<close>, raises
  \<open>AttributeError\<close>.
\<close>

theorem reset_running_stats_raises:
  "(case Norm_init ''bct'' (Some [None, Some 10, None]) ''bt'' (Some ''c'') CHR ''b'' CHR ''t''
           (Some False) (1 / 100000) (Some (95 / 100)) None of
      Inl e \<Rightarrow> False
    | Inr st \<Rightarrow> snd (reset_running_stats st) = Some AttributeError
               \<and> snd (reset_parameters st) = Some AttributeError)"
  by (auto simp add: Norm_init_def bindE_def lower_simps buffer_shape_def Scale_init_def
      Shift_init_def reset_running_stats_def reset_parameters_def truthy_def Let_def
      zeros_def full_def)

subsection \<open>Construction\<close>

lemma set_ones_result:
  "\<forall>a\<in>set stat. a < length s \<Longrightarrow>
   set_ones s stat = Inr (map (\<lambda>k. if k \<in> set stat then Some 1 else s ! k) [0..<length s])"
proof (induction stat arbitrary: s)
  case Nil
  then show ?case by (simp add: map_nth)
next
  case (Cons a stat)
  have "set_ones (s[a := Some 1]) stat =
    Inr (map (\<lambda>k. if k \<in> set stat then Some 1 else s[a := Some 1] ! k)
           [0..<length (s[a := Some 1])])"
    using Cons.prems by (intro Cons.IH) simp
  then show ?case using Cons.prems
    by (auto simp add: nth_list_update)
qed

lemma buffer_shape_assert:
  assumes "\<forall>a\<in>set stat. a < length s"
  shows "buffer_shape (Some s) stat = Inl AssertionError \<longleftrightarrow>
           (\<exists>k<length s. k \<notin> set stat \<and> s ! k = None)"
    and "buffer_shape (Some s) stat \<noteq> Inl AssertionError \<Longrightarrow>
           buffer_shape (Some s) stat =
             Inr (map (\<lambda>k. if k \<in> set stat then 1 else the (s ! k)) [0..<length s])"
proof -
  let ?r = "map (\<lambda>k. if k \<in> set stat then Some 1 else s ! k) [0..<length s]"
  have r: "(None \<in> set ?r) \<longleftrightarrow> (\<exists>k<length s. k \<notin> set stat \<and> s ! k = None)"
  proof
    assume "None \<in> set ?r"
    then obtain k where "k < length s" "None = (if k \<in> set stat then Some 1 else s ! k)"
      by auto
    then show "\<exists>k<length s. k \<notin> set stat \<and> s ! k = None"
      by (cases "k \<in> set stat") auto
  next
    assume "\<exists>k<length s. k \<notin> set stat \<and> s ! k = None"
    then obtain k where k: "k < length s" "k \<notin> set stat" "s ! k = None" by blast
    then have "?r ! k = None" by simp
    moreover have "k < length ?r" using k by simp
    ultimately show "None \<in> set ?r" by (metis nth_mem)
  qed
  have m: "map the ?r = map (\<lambda>k. if k \<in> set stat then 1 else the (s ! k)) [0..<length s]"
    by simp
  have b: "buffer_shape (Some s) stat =
             (if None \<in> set ?r then Inl AssertionError else Inr (map the ?r))"
    using assms unfolding buffer_shape_def
    by (simp add: set_ones_result bindE_def list_ex_iff del: set_map map_map)
  show "buffer_shape (Some s) stat = Inl AssertionError \<longleftrightarrow>
           (\<exists>k<length s. k \<notin> set stat \<and> s ! k = None)"
    unfolding b using r by simp
  show "buffer_shape (Some s) stat \<noteq> Inl AssertionError \<Longrightarrow>
           buffer_shape (Some s) stat =
             Inr (map (\<lambda>k. if k \<in> set stat then 1 else the (s ! k)) [0..<length s])"
    unfolding b using m by (simp split: if_splits)
qed

text \<open>
  Claim C9. Let the batch axis be one of the statistics axes, so that the running
  statistics are tracked, and let the construction reach the allocation of the buffers
  (the axis characters are found in the layout, a shape descriptor is given and the
  statistics axes lie inside it). If any axis of the descriptor outside the statistics
  axes has no concrete size, whether independent or not, \<open>Norm.__init__\<close> fails with an
  assertion error; and whenever it returns, every such axis has a concrete size and the
  count buffer has the descriptor's shape with every statistics axis set to 1.
\<close>

theorem Norm_init_requires_concrete_sizes:
  assumes "b_axis \<in> set stat_axis"
    and "str_index fmt (lower b_axis) = Inr b"
    and "str_index fmt (lower s_axis) = Inr sq"
    and "str_indices fmt stat_axis = Inr stat"
    and "\<forall>a\<in>set stat. a < length s"
  shows "((\<exists>k<length s. k \<notin> set stat \<and> s ! k = None) \<longrightarrow>
            Norm_init fmt (Some s) stat_axis independent_axis b_axis s_axis scl e mom nf
              = Inl AssertionError)
       \<and> (\<forall>st. Norm_init fmt (Some s) stat_axis independent_axis b_axis s_axis scl e mom nf
              = Inr st \<longrightarrow>
            (\<forall>k<length s. k \<notin> set stat \<longrightarrow> s ! k \<noteq> None) \<and>
            num_tracked_values st =
              Some (zeros (map (\<lambda>k. if k \<in> set stat then 1 else the (s ! k)) [0..<length s])))"
proof (cases "buffer_shape (Some s) stat = Inl AssertionError")
  case True
  then show ?thesis
    using assms buffer_shape_assert(1)[OF assms(5)]
    by (simp add: Norm_init_def bindE_def)
next
  case False
  have ne: "\<not> (\<exists>k<length s. k \<notin> set stat \<and> s ! k = None)"
    using False buffer_shape_assert(1)[OF assms(5)] by simp
  have eq: "buffer_shape (Some s) stat =
           Inr (map (\<lambda>k. if k \<in> set stat then 1 else the (s ! k)) [0..<length s])"
    using buffer_shape_assert(2)[OF assms(5) False] .
  show ?thesis using ne assms eq
    by (auto simp add: Norm_init_def bindE_def split: sum.splits option.splits)
qed

theorem Norm_init_requires_concrete_sizes_witness:
  "Norm_init ''bcft'' (Some [None, Some 10, None, None]) ''bt'' (Some ''c'') CHR ''b'' CHR ''t''
     (Some True) (1 / 100000) (Some (95 / 100)) None = Inl AssertionError
   \<and> (\<exists>st. Norm_init ''bct'' (Some [None, Some 10, None]) ''bt'' (Some ''c'') CHR ''b'' CHR ''t''
             (Some True) (1 / 100000) (Some (95 / 100)) None = Inr st
           \<and> num_tracked_values st = Some (zeros [1, 10, 1]))"
proof -
  have 1: "(\<exists>k<length [None, Some (10::nat), None, None].
              k \<notin> set [0, 3] \<and> [None, Some (10::nat), None, None] ! k = None)"
    by (intro exI[of _ 2]) simp
  have a: "Norm_init ''bcft'' (Some [None, Some 10, None, None]) ''bt'' (Some ''c'') CHR ''b''
     CHR ''t'' (Some True) (1 / 100000) (Some (95 / 100)) None = Inl AssertionError"
    using 1 Norm_init_requires_concrete_sizes[where fmt = "''bcft''" and stat_axis = "''bt''"
        and b_axis = "CHR ''b''" and s_axis = "CHR ''t''" and b = 0 and sq = 3 and stat = "[0, 3]"
        and s = "[None, Some 10, None, None]" and independent_axis = "Some ''c''"
        and scl = "Some True" and e = "1 / 100000" and mom = "Some (95 / 100)" and nf = None]
    by (simp add: lower_simps bindE_def)
  obtain st where st: "Norm_init ''bct'' (Some [None, Some 10, None]) ''bt'' (Some ''c'') CHR ''b''
             CHR ''t'' (Some True) (1 / 100000) (Some (95 / 100)) None = Inr st"
    by (simp add: Norm_init_def bindE_def lower_simps buffer_shape_def Scale_init_def
        Shift_init_def truthy_def Let_def)
  have "num_tracked_values st = Some (zeros [1, 10, 1])"
    using st Norm_init_requires_concrete_sizes[where fmt = "''bct''" and stat_axis = "''bt''"
        and b_axis = "CHR ''b''" and s_axis = "CHR ''t''" and b = 0 and sq = 2 and stat = "[0, 2]"
        and s = "[None, Some 10, None]" and independent_axis = "Some ''c''"
        and scl = "Some True" and e = "1 / 100000" and mom = "Some (95 / 100)" and nf = None]
    by (simp add: lower_simps bindE_def upt_rec)
  then show ?thesis using a st by simp
qed

subsection \<open>Calls that return\<close>

lemma expandable_axis:
  assumes "k < length s"
  shows "expandable (s ! k # replicate (length s - Suc k) 1) s"
proof -
  have d: "drop k s = s ! k # drop (Suc k) s" using assms by (simp add: Cons_nth_drop_Suc)
  have "list_all2 (\<lambda>d e. d = e \<or> d = 1) (replicate (length s - Suc k) (1::nat)) (drop (Suc k) s)"
    by (simp add: list_all2_conv_all_nth)
  then show ?thesis using assms d by (simp add: expandable_def)
qed

lemma expandable_nil [simp]: "expandable [] s"
  by (simp add: expandable_def)

lemma compute_mask_succeeds:
  assumes "lengths_ok st x seq_len"
  shows "\<exists>m. compute_mask st x seq_len = Inr m \<and> shape m = shape x"
proof (cases seq_len)
  case None
  then show ?thesis by (simp add: compute_mask_def)
next
  case (Some sl)
  let ?r = "length (shape x)"
  let ?seq = "(unsqueeze_last ^^ (?r - (batch_axis st + 1))) (of_ints sl)"
  let ?idx = "(unsqueeze_last ^^ (?r - (sequence_axis st + 1))) (arange (shape x ! sequence_axis st))"
  have b: "batch_axis st < ?r" and s: "sequence_axis st < ?r"
    and l: "length sl = shape x ! batch_axis st"
    using assms Some by (simp_all add: lengths_ok_def)
  have ei: "expandable (shape ?idx) (shape x)"
    using expandable_axis[OF s] by (simp add: shape_unsqueeze_pow arange_def)
  have es: "expandable (shape ?seq) (shape x)"
    using expandable_axis[OF b] l by (simp add: shape_unsqueeze_pow of_ints_def)
  obtain c where c: "broadcast_shapes (shape ?idx) (shape ?seq) = Some c" "expandable c (shape x)"
    using expandable_broadcast[OF ei es] by blast
  show ?thesis using Some s c
    by (simp add: compute_mask_def Let_def tbin_def bindE_def expand_def)
qed

lemma compute_mask_01:
  assumes "compute_mask st x seq_len = Inr m"
  shows "el m i = 0 \<or> el m i = 1"
proof (cases seq_len)
  case None
  then show ?thesis using assms by (auto simp add: compute_mask_def)
next
  case (Some sl)
  then show ?thesis using assms
    by (auto simp add: compute_mask_def Let_def bindE_def tbin_Inr expand_def
        split: if_splits sum.splits)
qed

lemma compute_mask_shape:
  assumes "compute_mask st x seq_len = Inr m"
  shows "shape m = shape x"
proof (cases seq_len)
  case None
  then show ?thesis using assms by (auto simp add: compute_mask_def)
next
  case (Some sl)
  then show ?thesis using assms
    by (auto simp add: compute_mask_def Let_def bindE_def expand_def
        split: if_splits sum.splits)
qed

lemma unbiased_var_same_shape:
  assumes "shape n = r" and "shape p = r" and "shape m = r"
  shows "\<exists>v. unbiased_var n p m = Inr v \<and> shape v = r
           \<and> (\<forall>j. valid_idx r j \<longrightarrow>
                 el v j = max (el n j) 2 / (max (el n j) 2 - 1) * (el p j - (el m j)\<^sup>2))"
proof -
  define n' where "n' = \<lparr>shape = r, el = (\<lambda>i. max (el n (bidx r i))
      (el (tmap (\<lambda>v. 2 * v) (ones_like n)) (bidx r i)))\<rparr>"
  define c where "c = \<lparr>shape = r, el = (\<lambda>i. el n' (bidx r i) / el (tmap (\<lambda>v. v - 1) n') (bidx r i))\<rparr>"
  define d where "d = \<lparr>shape = r, el = (\<lambda>i. el p (bidx r i) - el (tmap (\<lambda>v. v\<^sup>2) m) (bidx r i))\<rparr>"
  define v where "v = \<lparr>shape = r, el = (\<lambda>i. el c (bidx r i) * el d (bidx r i))\<rparr>"
  have 1: "tbin max n (tmap (\<lambda>v. 2 * v) (ones_like n)) = Inr n'"
    using tbin_same_shape[of n r "tmap (\<lambda>v. 2 * v) (ones_like n)" max] assms by (simp add: n'_def)
  have 2: "tbin (/) n' (tmap (\<lambda>v. v - 1) n') = Inr c"
    using tbin_same_shape[of n' r "tmap (\<lambda>v. v - 1) n'" "(/)"] by (simp add: c_def n'_def)
  have 3: "tbin (-) p (tmap (\<lambda>v. v\<^sup>2) m) = Inr d"
    using tbin_same_shape[of p r "tmap (\<lambda>v. v\<^sup>2) m" "(-)"] assms by (simp add: d_def)
  have 4: "tbin (*) c d = Inr v"
    using tbin_same_shape[of c r d "(*)"] by (simp add: v_def c_def d_def)
  have u: "unbiased_var n p m = Inr v"
    by (simp add: unbiased_var_def bindE_def 1 2 3 4)
  have "valid_idx r j \<Longrightarrow>
      el v j = max (el n j) 2 / (max (el n j) 2 - 1) * (el p j - (el m j)\<^sup>2)" for j
    by (simp add: v_def c_def d_def n'_def bidx_id)
  then show ?thesis using u by (simp add: v_def)
qed

lemma tbin_inplace_fit:
  assumes "shape a = r" and "expandable (shape b) r"
  shows "tbin_inplace f a b =
           Inr \<lparr>shape = r, el = (\<lambda>i. f (el a (bidx r i)) (el b (bidx (shape b) i)))\<rparr>"
  using assms expandable_broadcast_self[OF assms(2)] by (simp add: tbin_inplace_def)

lemma normalize_batch_succeeds:
  assumes "shape mean = r" and "shape n = r" and "expandable r (shape x)"
    and "truthy (scale st) \<Longrightarrow> \<exists>p. pwr = Some p \<and> shape p = r"
  shows "\<exists>x1. normalize_batch st x mean pwr n = Inr x1 \<and> shape x1 = shape x"
proof -
  obtain x0 where x0: "tbin (-) x mean = Inr x0" "shape x0 = shape x"
    using tbin_fit[of x "shape x" mean r "(-)"] assms by auto
  show ?thesis
  proof (cases "truthy (scale st)")
    case False
    then show ?thesis using x0 by (simp add: normalize_batch_def bindE_def)
  next
    case True
    then obtain p where p: "pwr = Some p" "shape p = r" using assms(4) by blast
    obtain v where v: "unbiased_var n p mean = Inr v" "shape v = r"
      using unbiased_var_same_shape[OF assms(2) p(2) assms(1)] by blast
    obtain x1 where "tbin (/) x0 (tmap (\<lambda>v. sqrt v + eps st) v) = Inr x1" "shape x1 = shape x"
      using tbin_fit[of x0 "shape x" "tmap (\<lambda>v. sqrt v + eps st) v" r "(/)"] x0 v assms(3) by auto
    then show ?thesis using True p x0 v by (simp add: normalize_batch_def bindE_def)
  qed
qed

lemma expandable_antisym:
  assumes "expandable a b" and "expandable b a"
  shows "a = b"
proof -
  have l: "length a = length b" using assms by (simp add: expandable_def)
  have 1: "list_all2 (\<lambda>d e. d = e \<or> d = 1) a b" and 2: "list_all2 (\<lambda>d e. d = e \<or> d = 1) b a"
    using assms l by (simp_all add: expandable_def)
  show ?thesis
  proof (rule nth_equalityI[OF l])
    fix i assume i: "i < length a"
    have "a ! i = b ! i \<or> a ! i = 1" using list_all2_nthD[OF 1 i] .
    moreover have "b ! i = a ! i \<or> b ! i = 1" using list_all2_nthD2[OF 2 i] .
    ultimately show "a ! i = b ! i" by auto
  qed
qed

lemma expandable_broadcast_left:
  assumes "expandable a r"
  shows "broadcast_shapes a r = Some r"
proof -
  obtain c where c: "broadcast_shapes a r = Some c" "expandable c r"
    using expandable_broadcast[OF assms expandable_refl] by blast
  have "expandable r c" using broadcast_shapes_expandable(2)[OF c(1)] .
  then have "c = r" using c(2) by (rule expandable_antisym[rotated])
  then show ?thesis using c(1) by simp
qed

lemma tbin_fit_left:
  assumes "expandable (shape a) r" and "shape b = r"
  shows "tbin f a b = Inr \<lparr>shape = r, el = (\<lambda>i. f (el a (bidx (shape a) i)) (el b (bidx r i)))\<rparr>"
  using assms expandable_broadcast_left[OF assms(1)] by (simp add: tbin_def)

lemma blend_ok:
  assumes "shape buf = r" and "shape v = r" and "expandable (shape mom) r"
  shows "\<exists>b1 b2. tbin_inplace (*) buf mom = Inr b1
           \<and> bindE (tbin (*) (tmap (\<lambda>v. 1 - v) mom) v) (tbin_inplace (+) b1) = Inr b2
           \<and> shape b1 = r \<and> shape b2 = r
           \<and> (\<forall>j. valid_idx r j \<longrightarrow>
                 el b2 j = el buf j * el mom (bidx (shape mom) j)
                           + (1 - el mom (bidx (shape mom) j)) * el v j)"
proof -
  define b1 where "b1 = \<lparr>shape = r, el = (\<lambda>i. el buf (bidx r i) * el mom (bidx (shape mom) i))\<rparr>"
  define t where "t = \<lparr>shape = r,
     el = (\<lambda>i. el (tmap (\<lambda>v. 1 - v) mom) (bidx (shape mom) i) * el v (bidx r i))\<rparr>"
  define b2 where "b2 = \<lparr>shape = r, el = (\<lambda>i. el b1 (bidx r i) + el t (bidx r i))\<rparr>"
  have 1: "tbin_inplace (*) buf mom = Inr b1"
    using tbin_inplace_fit[OF assms(1,3), of "(*)"] by (simp add: b1_def)
  have 2: "tbin (*) (tmap (\<lambda>v. 1 - v) mom) v = Inr t"
    using tbin_fit_left[of "tmap (\<lambda>v. 1 - v) mom" r v "(*)"] assms by (simp add: t_def)
  have 3: "tbin_inplace (+) b1 t = Inr b2"
    using tbin_inplace_fit[of b1 r t "(+)"] by (simp add: b1_def t_def b2_def expandable_refl)
  have "valid_idx r j \<Longrightarrow>
      el b2 j = el buf j * el mom (bidx (shape mom) j)
                + (1 - el mom (bidx (shape mom) j)) * el v j" for j
    by (simp add: b2_def b1_def t_def bidx_id)
  then show ?thesis using 1 2 3 by (simp add: bindE_def b1_def b2_def)
qed

lemma update_running_stats_ok:
  assumes ntv: "num_tracked_values st = Some ntv" "shape ntv = r"
    and rm: "running_mean st = Some rm" "shape rm = r"
    and sh: "shape mean = r" "shape n = r"
    and sc: "truthy (scale st) \<Longrightarrow>
               \<exists>rp p. running_power st = Some rp \<and> shape rp = r \<and> pwr = Some p \<and> shape p = r"
  shows "\<exists>st' ntv' rm'. update_running_stats st mean pwr n = (st', None)
     \<and> num_tracked_values st' = Some ntv' \<and> shape ntv' = r
     \<and> running_mean st' = Some rm' \<and> shape rm' = r
     \<and> (\<forall>j. valid_idx r j \<longrightarrow> el ntv' j = el ntv j + el n j)
     \<and> (\<forall>m j. momentum st = Some m \<and> valid_idx r j \<longrightarrow>
           el rm' j = el rm j * m + (1 - m) * el mean j)
     \<and> (if truthy (scale st)
        then \<exists>rp p rp'. running_power st = Some rp \<and> pwr = Some p
               \<and> running_power st' = Some rp' \<and> shape rp' = r
               \<and> (\<forall>m j. momentum st = Some m \<and> valid_idx r j \<longrightarrow>
                     el rp' j = el rp j * m + (1 - m) * el p j)
        else running_power st' = running_power st)"
proof -
  define ntv' where "ntv' = \<lparr>shape = r, el = (\<lambda>i. el ntv (bidx r i) + el n (bidx (shape n) i))\<rparr>"
  have 1: "tbin_inplace (+) ntv n = Inr ntv'"
    using tbin_inplace_fit[of ntv r n "(+)"] ntv sh by (simp add: ntv'_def expandable_refl)
  have e1: "valid_idx r j \<Longrightarrow> el ntv' j = el ntv j + el n j" for j
    using sh by (simp add: ntv'_def bidx_id)
  obtain mom where mom: "(case momentum st of
              None \<Rightarrow> bindE (tbin (/) n ntv') (\<lambda>q. Inr (tmap (\<lambda>v. 1 - v) q))
            | Some m \<Rightarrow> Inr (scalar m)) = Inr mom" "expandable (shape mom) r"
    "\<And>m i. momentum st = Some m \<Longrightarrow> el mom i = m"
  proof (cases "momentum st")
    case None
    have "tbin (/) n ntv' = Inr \<lparr>shape = r, el = (\<lambda>i. el n (bidx r i) / el ntv' (bidx r i))\<rparr>"
      using tbin_same_shape[of n r ntv' "(/)"] sh by (simp add: ntv'_def)
    then show ?thesis using None that by (simp add: bindE_def expandable_refl)
  next
    case (Some m)
    then show ?thesis using that by (simp add: scalar_def full_def)
  qed
  obtain rm1 rm2 where 2: "tbin_inplace (*) rm mom = Inr rm1"
    and 3: "bindE (tbin (*) (tmap (\<lambda>v. 1 - v) mom) mean) (tbin_inplace (+) rm1) = Inr rm2"
    and s2: "shape rm2 = r"
    and e2: "\<And>j. valid_idx r j \<Longrightarrow>
          el rm2 j = el rm j * el mom (bidx (shape mom) j)
                     + (1 - el mom (bidx (shape mom) j)) * el mean j"
    using blend_ok[OF rm(2) sh(1) mom(2)] by blast
  let ?st1 = "st\<lparr>num_tracked_values := Some ntv'\<rparr>"
  let ?st2 = "?st1\<lparr>running_mean := Some rm1\<rparr>"
  let ?st3 = "?st2\<lparr>running_mean := Some rm2\<rparr>"
  show ?thesis
  proof (cases "truthy (scale st)")
    case False
    have "update_running_stats st mean pwr n = (?st3, None)"
      using False ntv(1) rm(1) 1 mom(1) 2 3 by (simp add: update_running_stats_def Let_def)
    then show ?thesis using False s2 e1 e2 mom(3) by (auto simp add: ntv'_def)
  next
    case True
    then obtain rp p where rp: "running_power st = Some rp" "shape rp = r"
      and p: "pwr = Some p" "shape p = r" using sc by blast
    obtain rp1 rp2 where 4: "tbin_inplace (*) rp mom = Inr rp1"
      and 5: "bindE (tbin (*) (tmap (\<lambda>v. 1 - v) mom) p) (tbin_inplace (+) rp1) = Inr rp2"
      and s5: "shape rp2 = r"
      and e5: "\<And>j. valid_idx r j \<Longrightarrow>
          el rp2 j = el rp j * el mom (bidx (shape mom) j)
                     + (1 - el mom (bidx (shape mom) j)) * el p j"
      using blend_ok[OF rp(2) p(2) mom(2)] by blast
    let ?st5 = "?st3\<lparr>running_power := Some rp1\<rparr>\<lparr>running_power := Some rp2\<rparr>"
    have "update_running_stats st mean pwr n = (?st5, None)"
      using True ntv(1) rm(1) 1 mom(1) 2 3 rp(1) p(1) 4 5
      by (simp add: update_running_stats_def Let_def)
    then show ?thesis using True s2 s5 e1 e2 e5 mom(3) rp(1) p(1) by (auto simp add: ntv'_def)
  qed
qed

lemma indices_nonempty: "0 \<notin> set s \<Longrightarrow> indices s \<noteq> []"
proof (induction s)
  case Nil
  then show ?case by simp
next
  case (Cons d ds)
  then have d: "0 < d" and i: "indices ds \<noteq> []" by auto
  have "0 \<in> set [0..<d]" using d by simp
  moreover have "map ((#) 0) (indices ds) \<noteq> []" using i by simp
  ultimately show ?case by (auto simp add: image_iff intro!: bexI[of _ 0])
qed

lemma tmax_item_succeeds: "0 \<notin> set (shape t) \<Longrightarrow> \<exists>m. tmax_item t = Inr m"
  using indices_nonempty[of "shape t"]
  by (cases "indices (shape t)") (auto simp add: tmax_item_def)

lemma stat_shape_expandable: "expandable (stat_shape st x) (shape x)"
  by (simp add: stat_shape_def expandable_reduced_dims)

lemma estimate_mode_succeeds:
  assumes "buffers_ok st x" and "n_freeze st \<noteq> None \<longrightarrow> 0 \<notin> set (stat_shape st x)"
  shows "\<exists>b. estimate_mode st = Inr b"
proof (cases "training st \<and> n_freeze st \<noteq> None \<and> track_running_stats st")
  case False
  then show ?thesis
    by (auto simp add: estimate_mode_def freezed_def bindE_def split: option.splits)
next
  case True
  then obtain nf where nf: "n_freeze st = Some nf" by auto
  obtain ntv where ntv: "num_tracked_values st = Some ntv" "shape ntv = stat_shape st x"
    using assms(1) True by (auto simp add: buffers_ok_def)
  obtain m where "tmax_item ntv = Inr m"
    using tmax_item_succeeds[of ntv] assms(2) nf ntv by auto
  then show ?thesis using True nf ntv
    by (simp add: estimate_mode_def freezed_def bindE_def)
qed

lemma estimate_mode_False_tracks: "estimate_mode st = Inr False \<Longrightarrow> track_running_stats st"
  by (auto simp add: estimate_mode_def bindE_def split: if_splits sum.splits)

lemma affine_and_mask_succeeds:
  assumes "fits (shape x1) (learnable_scale st)" and "fits (shape x1) (learnable_shift st)"
    and "shape msk = shape x1"
  shows "\<exists>y. affine_and_mask st x1 msk = Inr y"
proof -
  obtain x2 where x2: "(case learnable_scale st of None \<Rightarrow> Inr x1
                         | Some sc \<Rightarrow> Scale_forward sc x1) = Inr x2" "shape x2 = shape x1"
  proof (cases "learnable_scale st")
    case None
    then show ?thesis using that by simp
  next
    case (Some sc)
    then show ?thesis
      using that assms(1) tbin_fit[of x1 "shape x1" sc "shape sc" "(*)"]
      by (simp add: fits_def Scale_forward_def)
  qed
  obtain x3 where x3: "(case learnable_shift st of None \<Rightarrow> Inr x2
                         | Some sh \<Rightarrow> Shift_forward sh x2) = Inr x3" "shape x3 = shape x1"
  proof (cases "learnable_shift st")
    case None
    then show ?thesis using that x2 by simp
  next
    case (Some sh)
    then show ?thesis
      using that assms(2) x2 tbin_fit[of x2 "shape x1" sh "shape sh" "(-)"]
      by (simp add: fits_def Shift_forward_def)
  qed
  obtain y where "tbin (*) x3 msk = Inr y"
    using tbin_same_shape[of x3 "shape x1" msk "(*)"] x3 assms(3) by simp
  then show ?thesis using x2 x3 by (simp add: affine_and_mask_def bindE_def)
qed

lemma normalize_running_succeeds:
  assumes "track_running_stats st" and "buffers_ok st x"
  shows "\<exists>x1. normalize_running st x = Inr x1 \<and> shape x1 = shape x"
proof -
  let ?r = "stat_shape st x"
  obtain ntv rm where ntv: "num_tracked_values st = Some ntv" "shape ntv = ?r"
    and rm: "running_mean st = Some rm" "shape rm = ?r"
    using assms by (auto simp add: buffers_ok_def)
  obtain x0 where x0: "tbin (-) x rm = Inr x0" "shape x0 = shape x"
    using tbin_fit[of x "shape x" rm ?r "(-)"] rm stat_shape_expandable by auto
  show ?thesis
  proof (cases "truthy (scale st)")
    case False
    then show ?thesis using rm x0 by (simp add: normalize_running_def bindE_def)
  next
    case True
    then obtain rp where rp: "running_power st = Some rp" "shape rp = ?r"
      using assms by (auto simp add: buffers_ok_def)
    obtain v where v: "unbiased_var ntv rp rm = Inr v" "shape v = ?r"
      using unbiased_var_same_shape[OF ntv(2) rp(2) rm(2)] by blast
    obtain x1 where "tbin (/) x0 (tmap (\<lambda>v. sqrt v + eps st) v) = Inr x1" "shape x1 = shape x"
      using tbin_fit[of x0 "shape x" "tmap (\<lambda>v. sqrt v + eps st) v" ?r "(/)"] x0 v
        stat_shape_expandable by auto
    then show ?thesis using True rm ntv rp x0 v by (simp add: normalize_running_def bindE_def)
  qed
qed

lemma forward_estimate_succeeds:
  assumes "axes_ok st x" and "buffers_ok st x" and "shape msk = shape x"
  shows "\<exists>st' x1. forward_estimate st x msk = (st', Inr x1) \<and> shape x1 = shape x"
proof -
  let ?r = "stat_shape st x"
  obtain mean pwr n where cs: "compute_stats st x msk = Inr (mean, pwr, n)"
    and sh: "shape mean = ?r" "shape n = ?r"
    and pw: "if truthy (scale st) then \<exists>p. pwr = Some p \<and> shape p = ?r else pwr = None"
    using compute_stats_succeeds[OF assms(1,3)] by (auto split: if_splits)
  have pw': "truthy (scale st) \<Longrightarrow> \<exists>p. pwr = Some p \<and> shape p = ?r" using pw by simp
  obtain x1 where x1: "normalize_batch st x mean pwr n = Inr x1" "shape x1 = shape x"
    using normalize_batch_succeeds[OF sh stat_shape_expandable pw'] by blast
  show ?thesis
  proof (cases "track_running_stats st")
    case False
    then show ?thesis using cs x1 by (simp add: forward_estimate_def)
  next
    case True
    then obtain ntv rm where ntv: "num_tracked_values st = Some ntv" "shape ntv = ?r"
      and rm: "running_mean st = Some rm" "shape rm = ?r"
      using assms(2) by (auto simp add: buffers_ok_def)
    have sc: "truthy (scale st) \<Longrightarrow>
               \<exists>rp p. running_power st = Some rp \<and> shape rp = ?r \<and> pwr = Some p \<and> shape p = ?r"
      using assms(2) True pw' by (auto simp add: buffers_ok_def)
    obtain st' where "update_running_stats st mean pwr n = (st', None)"
      using update_running_stats_ok[OF ntv rm sh sc] by blast
    then show ?thesis using True cs x1 by (simp add: forward_estimate_def)
  qed
qed

lemma forward_estimate_learnables:
  assumes "forward_estimate st x msk = (st', r)"
  shows "learnable_scale st' = learnable_scale st \<and> learnable_shift st' = learnable_shift st"
proof -
  have "st'\<lparr>num_tracked_values := num_tracked_values st, running_mean := running_mean st,
      running_power := running_power st\<rparr> = st"
    using forward_estimate_frame[of st x msk] assms by simp
  then have "learnable_scale (st'\<lparr>num_tracked_values := num_tracked_values st,
      running_mean := running_mean st, running_power := running_power st\<rparr>) = learnable_scale st"
    and "learnable_shift (st'\<lparr>num_tracked_values := num_tracked_values st,
      running_mean := running_mean st, running_power := running_power st\<rparr>) = learnable_shift st"
    by simp_all
  then show ?thesis by simp
qed

lemma forward_succeeds:
  assumes "ready st x seq_len"
  shows "\<exists>st' y. forward st x seq_len = (st', Inr y)"
proof -
  have ax: "axes_ok st x" and bo: "buffers_ok st x"
    and fs: "fits (shape x) (learnable_scale st)" "fits (shape x) (learnable_shift st)"
    and lo: "lengths_ok st x seq_len"
    and nf: "n_freeze st \<noteq> None \<longrightarrow> 0 \<notin> set (stat_shape st x)"
    using assms by (simp_all add: ready_def)
  obtain msk where msk: "compute_mask st x seq_len = Inr msk" "shape msk = shape x"
    using compute_mask_succeeds[OF lo] by blast
  obtain est where est: "estimate_mode st = Inr est"
    using estimate_mode_succeeds[OF bo nf] by blast
  obtain st' x1 where x1:
    "(if est then forward_estimate st x msk else (st, normalize_running st x)) = (st', Inr x1)"
    "shape x1 = shape x"
    "learnable_scale st' = learnable_scale st \<and> learnable_shift st' = learnable_shift st"
  proof (cases est)
    case True
    obtain st' x1 where f: "forward_estimate st x msk = (st', Inr x1)" "shape x1 = shape x"
      using forward_estimate_succeeds[OF ax bo msk(2)] by blast
    show ?thesis using that[of st' x1] True f forward_estimate_learnables[OF f(1)] by simp
  next
    case False
    then have "track_running_stats st" using est estimate_mode_False_tracks by simp
    then obtain x1 where "normalize_running st x = Inr x1" "shape x1 = shape x"
      using normalize_running_succeeds[OF _ bo] by blast
    then show ?thesis using that[of st x1] False by simp
  qed
  obtain y where "affine_and_mask st' x1 msk = Inr y"
    using affine_and_mask_succeeds[of x1 st' msk] fs x1 msk(2) by auto
  then show ?thesis using msk est x1(1) by (simp add: forward_def)
qed

lemma forward_Inr:
  assumes "forward st x seq_len = (st', Inr y)"
  shows "\<exists>msk est x1. compute_mask st x seq_len = Inr msk \<and> estimate_mode st = Inr est
     \<and> (if est then forward_estimate st x msk else (st, normalize_running st x)) = (st', Inr x1)
     \<and> affine_and_mask st' x1 msk = Inr y"
  using assms
  by (auto simp add: forward_def split: sum.splits prod.splits if_splits)

lemma forward_estimate_Inr:
  assumes "forward_estimate st x msk = (st', Inr x1)"
  shows "\<exists>mean pwr n. compute_stats st x msk = Inr (mean, pwr, n)
     \<and> normalize_batch st x mean pwr n = Inr x1"
  using assms
  by (auto simp add: forward_estimate_def split: sum.splits prod.splits if_splits option.splits)

lemma forward_Inr_shape:
  assumes f: "forward st x seq_len = (st', Inr y)" and c: "conforms st x"
  shows "shape y = shape x"
proof -
  obtain msk est x1 where msk: "compute_mask st x seq_len = Inr msk"
    and br: "(if est then forward_estimate st x msk else (st, normalize_running st x))
               = (st', Inr x1)"
    and y: "affine_and_mask st' x1 msk = Inr y"
    using forward_Inr[OF f] by blast
  have sm: "shape msk = shape x" using compute_mask_shape[OF msk] .
  have x1: "shape x1 = shape x"
    and l: "learnable_scale st' = learnable_scale st \<and> learnable_shift st' = learnable_shift st"
  proof -
    show "shape x1 = shape x"
    proof (cases est)
      case True
      then have fe: "forward_estimate st x msk = (st', Inr x1)" using br by simp
      obtain mean pwr n where cs: "compute_stats st x msk = Inr (mean, pwr, n)"
        and nb: "normalize_batch st x mean pwr n = Inr x1"
        using forward_estimate_Inr[OF fe] by blast
      show ?thesis
        using normalize_batch_shape[OF nb] compute_stats_expandable[OF cs sm] by blast
    next
      case False
      then have "normalize_running st x = Inr x1" using br by auto
      then show ?thesis using c by (rule normalize_running_shape)
    qed
    show "learnable_scale st' = learnable_scale st \<and> learnable_shift st' = learnable_shift st"
    proof (cases est)
      case True
      then show ?thesis using br forward_estimate_learnables by simp
    next
      case False
      then show ?thesis using br by simp
    qed
  qed
  show ?thesis
    using affine_and_mask_shape[OF y] c l x1 sm by (simp add: conforms_def)
qed

subsection \<open>Padding is zero in the output\<close>

text \<open>
  In the exact arithmetic of the model: let \<open>Norm.forward\<close> return for an input that the
  parameters and buffers of the instance fit, with one length for every example. Then
  the output has the shape of the input, and every entry at a position \<open>t\<close> of the
  sequence axis with \<open>t \<ge> length[b]\<close>, \<open>b\<close> the position on the batch axis, is zero: the
  mask is multiplied in after the learnable scale and shift. In float32 the product
  with the mask leaves a NaN where the normalised entry is NaN.
\<close>

lemma forward_zero_outside_length:
  assumes "forward st x (Some sl) = (st', Inr y)"
    and "conforms st x"
    and "batch_axis st < length (shape x)"
    and "length sl = shape x ! batch_axis st"
  shows "shape y = shape x
       \<and> (\<forall>i. valid_idx (shape x) i \<and> sl ! (i ! batch_axis st) \<le> int (i ! sequence_axis st)
              \<longrightarrow> el y i = 0)"
proof -
  obtain msk x1 where msk: "compute_mask st x (Some sl) = Inr msk"
    and y: "affine_and_mask st' x1 msk = Inr y"
    using forward_Inr[OF assms(1)] by blast
  have sm: "shape msk = shape x" using compute_mask_shape[OF msk] .
  have "el y i = 0"
    if "valid_idx (shape x) i" and "sl ! (i ! batch_axis st) \<le> int (i ! sequence_axis st)" for i
  proof -
    have "el msk i = 0"
      using compute_mask_lengths(2)[OF msk assms(3,4) that(1)] that(2) by simp
    then show ?thesis using affine_and_mask_zero[OF y] that(1) sm by simp
  qed
  then show ?thesis using forward_Inr_shape[OF assms(1,2)] by blast
qed

lemma Norm_init_doc:
  "Norm_init ''bct'' (Some [None, Some 10, None]) ''bt'' (Some ''c'') CHR ''b'' CHR ''t''
     (Some True) (1 / 100000) (Some (1 / 2)) None = Inr doc_norm"
  by (simp add: Norm_init_def bindE_def lower_simps buffer_shape_def Scale_init_def
      Shift_init_def truthy_def Let_def doc_norm_def)

lemma stat_shape_doc: "stat_shape doc_norm doc_x = [1, 10, 1]"
  by (simp add: stat_shape_def stat_axes_def reduced_dims_def doc_norm_def doc_x_def full_def)

lemma expandable_doc: "expandable [1, 10, 1] [3, 10, 4]"
  by (simp add: expandable_def)

lemma ready_doc: "ready doc_norm doc_x (Some [1, 2, 3])"
  unfolding ready_def
  by (simp add: stat_shape_doc axes_ok_def buffers_ok_def fits_def lengths_ok_def)
     (simp add: doc_norm_def doc_x_def full_def zeros_def ones_def truthy_def expandable_def)

lemma conforms_doc: "conforms doc_norm doc_x"
  by (simp add: conforms_def fits_def doc_norm_def doc_x_def full_def zeros_def ones_def
      expandable_def)

subsection \<open>Degenerate statistics\<close>

lemma count_nonneg:
  assumes "\<And>i. el msk i = 0 \<or> el msk i = 1"
  shows "0 \<le> count_at st x msk j"
  unfolding count_at_def using assms by (intro rsum_nonneg) (metis order_refl zero_le_one)

lemma masked_cauchy_schwarz:
  assumes "\<And>i. el msk i = 0 \<or> el msk i = 1"
  shows "(sum_at st x msk j)\<^sup>2 \<le> count_at st x msk j * sqsum_at st x msk j"
  unfolding sum_at_def count_at_def sqsum_at_def using assms by (rule rsum_cauchy_schwarz)

subsection \<open>The configuration is kept by a call\<close>

lemma forward_keeps_config:
  assumes "forward st x seq_len = (st', r)"
  shows "st'\<lparr>num_tracked_values := num_tracked_values st, running_mean := running_mean st,
            running_power := running_power st\<rparr> = st"
proof -
  have "fst (forward st x seq_len) = st'" using assms by simp
  then show ?thesis
    using forward_estimate_frame[of st x]
    by (auto simp add: fst_forward split: sum.splits if_splits)
qed

lemma forward_config_fields:
  assumes "forward st x seq_len = (st', r)"
  shows "statistics_axis st' = statistics_axis st" and "scale st' = scale st"
    and "batch_axis st' = batch_axis st" and "sequence_axis st' = sequence_axis st"
    and "track_running_stats st' = track_running_stats st" and "momentum st' = momentum st"
    and "learnable_scale st' = learnable_scale st" and "learnable_shift st' = learnable_shift st"
    and "n_freeze st' = n_freeze st" and "training st' = training st" and "eps st' = eps st"
proof -
  let ?st = "st'\<lparr>num_tracked_values := num_tracked_values st, running_mean := running_mean st,
            running_power := running_power st\<rparr>"
  have e: "?st = st" using forward_keeps_config[OF assms] .
  show "statistics_axis st' = statistics_axis st" using arg_cong[OF e, of statistics_axis] by simp
  show "scale st' = scale st" using arg_cong[OF e, of scale] by simp
  show "batch_axis st' = batch_axis st" using arg_cong[OF e, of batch_axis] by simp
  show "sequence_axis st' = sequence_axis st" using arg_cong[OF e, of sequence_axis] by simp
  show "track_running_stats st' = track_running_stats st"
    using arg_cong[OF e, of track_running_stats] by simp
  show "momentum st' = momentum st" using arg_cong[OF e, of momentum] by simp
  show "learnable_scale st' = learnable_scale st" using arg_cong[OF e, of learnable_scale] by simp
  show "learnable_shift st' = learnable_shift st" using arg_cong[OF e, of learnable_shift] by simp
  show "n_freeze st' = n_freeze st" using arg_cong[OF e, of n_freeze] by simp
  show "training st' = training st" using arg_cong[OF e, of training] by simp
  show "eps st' = eps st" using arg_cong[OF e, of eps] by simp
qed

lemma compute_mask_config:
  "batch_axis st' = batch_axis st \<Longrightarrow> sequence_axis st' = sequence_axis st \<Longrightarrow>
   compute_mask st' x seq_len = compute_mask st x seq_len"
  by (simp add: compute_mask_def Let_def cong: option.case_cong if_cong)

lemma compute_stats_config:
  "statistics_axis st' = statistics_axis st \<Longrightarrow> scale st' = scale st \<Longrightarrow>
   compute_stats st' x msk = compute_stats st x msk"
  by (simp add: compute_stats_def cong: if_cong)

lemma estimate_mode_training:
  "training st \<Longrightarrow> freezed st = Inr False \<Longrightarrow> estimate_mode st = Inr True"
  by (simp add: estimate_mode_def bindE_def)

lemma forward_training_update:
  assumes r: "ready st x seq_len" and est: "estimate_mode st = Inr True"
    and tr: "track_running_stats st"
  shows "\<exists>st' y msk mean pwr n ntv rm ntv' rm'.
       forward st x seq_len = (st', Inr y)
     \<and> compute_mask st x seq_len = Inr msk \<and> shape msk = shape x
     \<and> compute_stats st x msk = Inr (mean, pwr, n)
     \<and> num_tracked_values st = Some ntv \<and> running_mean st = Some rm
     \<and> num_tracked_values st' = Some ntv' \<and> shape ntv' = stat_shape st x
     \<and> running_mean st' = Some rm' \<and> shape rm' = stat_shape st x
     \<and> (\<forall>j. valid_idx (stat_shape st x) j \<longrightarrow> el ntv' j = el ntv j + el n j)
     \<and> (\<forall>m j. momentum st = Some m \<and> valid_idx (stat_shape st x) j \<longrightarrow>
           el rm' j = el rm j * m + (1 - m) * el mean j)
     \<and> (if truthy (scale st)
        then \<exists>rp p rp'. running_power st = Some rp \<and> pwr = Some p
               \<and> running_power st' = Some rp' \<and> shape rp' = stat_shape st x
               \<and> (\<forall>m j. momentum st = Some m \<and> valid_idx (stat_shape st x) j \<longrightarrow>
                     el rp' j = el rp j * m + (1 - m) * el p j)
        else running_power st' = running_power st)"
proof -
  let ?r = "stat_shape st x"
  have ax: "axes_ok st x" and bo: "buffers_ok st x"
    and fs: "fits (shape x) (learnable_scale st)" "fits (shape x) (learnable_shift st)"
    and lo: "lengths_ok st x seq_len"
    using r by (simp_all add: ready_def)
  obtain msk where msk: "compute_mask st x seq_len = Inr msk" "shape msk = shape x"
    using compute_mask_succeeds[OF lo] by blast
  obtain mean pwr n where cs: "compute_stats st x msk = Inr (mean, pwr, n)"
    and sh: "shape mean = ?r" "shape n = ?r"
    and pw: "if truthy (scale st) then \<exists>p. pwr = Some p \<and> shape p = ?r else pwr = None"
    using compute_stats_succeeds[OF ax msk(2)] by (auto split: if_splits)
  have pw': "truthy (scale st) \<Longrightarrow> \<exists>p. pwr = Some p \<and> shape p = ?r" using pw by simp
  obtain x1 where x1: "normalize_batch st x mean pwr n = Inr x1" "shape x1 = shape x"
    using normalize_batch_succeeds[OF sh stat_shape_expandable pw'] by blast
  obtain ntv rm where ntv: "num_tracked_values st = Some ntv" "shape ntv = ?r"
    and rm: "running_mean st = Some rm" "shape rm = ?r"
    using bo tr by (auto simp add: buffers_ok_def)
  have sc: "truthy (scale st) \<Longrightarrow>
             \<exists>rp p. running_power st = Some rp \<and> shape rp = ?r \<and> pwr = Some p \<and> shape p = ?r"
    using bo tr pw' by (auto simp add: buffers_ok_def)
  obtain st' ntv' rm' where u: "update_running_stats st mean pwr n = (st', None)"
    and u1: "num_tracked_values st' = Some ntv'" "shape ntv' = ?r"
      "running_mean st' = Some rm'" "shape rm' = ?r"
    and u2: "\<forall>j. valid_idx ?r j \<longrightarrow> el ntv' j = el ntv j + el n j"
    and u3: "\<forall>m j. momentum st = Some m \<and> valid_idx ?r j \<longrightarrow>
           el rm' j = el rm j * m + (1 - m) * el mean j"
    and u4: "if truthy (scale st)
        then \<exists>rp p rp'. running_power st = Some rp \<and> pwr = Some p
               \<and> running_power st' = Some rp' \<and> shape rp' = ?r
               \<and> (\<forall>m j. momentum st = Some m \<and> valid_idx ?r j \<longrightarrow>
                     el rp' j = el rp j * m + (1 - m) * el p j)
        else running_power st' = running_power st"
    using update_running_stats_ok[OF ntv rm sh sc] by blast
  have fe: "forward_estimate st x msk = (st', Inr x1)"
    using cs x1 tr u by (simp add: forward_estimate_def)
  have l: "learnable_scale st' = learnable_scale st \<and> learnable_shift st' = learnable_shift st"
    using forward_estimate_learnables[OF fe] .
  obtain y where y: "affine_and_mask st' x1 msk = Inr y"
    using affine_and_mask_succeeds[of x1 st' msk] fs x1 msk(2) l by auto
  have f: "forward st x seq_len = (st', Inr y)"
    using msk est fe y by (simp add: forward_def)
  show ?thesis using f msk cs ntv(1) rm(1) u1 u2 u3 u4 by blast
qed

subsection \<open>The update of the running statistics\<close>

lemma ready_after_forward:
  assumes f: "forward st x1 sl1 = (st', r)"
    and s1: "map_option shape (num_tracked_values st') = map_option shape (num_tracked_values st)"
      "map_option shape (running_mean st') = map_option shape (running_mean st)"
      "map_option shape (running_power st') = map_option shape (running_power st)"
    and r2: "ready st x2 sl2"
  shows "ready st' x2 sl2"
proof -
  note c = forward_config_fields[OF f]
  have ss: "stat_shape st' x2 = stat_shape st x2"
    using c(1) by (simp add: stat_shape_def stat_axes_def)
  show ?thesis
    using r2 s1 c ss
    by (auto simp add: ready_def axes_ok_def buffers_ok_def lengths_ok_def split: option.splits)
qed

text \<open>
  Claim C6. An instance tracks its running statistics with the fixed momentum \<open>m\<close>,
  is in training mode and has a running mean of zeros. Two inputs are ready for it, and
  it is frozen neither before the first call nor before the second. Then both calls
  return, and after them the running mean is, at every position,
  \<open>m * (m * 0 + (1 - m) * \<mu>1) + (1 - m) * \<mu>2\<close>, where \<open>\<mu>1\<close> and \<open>\<mu>2\<close> are the means
  that \<open>compute_stats\<close> gives for the two inputs under their masks.
\<close>

theorem running_mean_after_two_calls:
  assumes r1: "ready st0 x1 sl1" and r2: "ready st0 x2 sl2"
    and tr: "track_running_stats st0" and mo: "momentum st0 = Some m"
    and tn: "training st0"
    and rm0: "running_mean st0 = Some rm0" and z: "\<forall>j. el rm0 j = 0"
    and nf0: "freezed st0 = Inr False"
    and nf1: "freezed (fst (forward st0 x1 sl1)) = Inr False"
  shows "\<exists>st1 y1 st2 y2 msk1 mu1 p1 n1 msk2 mu2 p2 n2 rm2.
       forward st0 x1 sl1 = (st1, Inr y1) \<and> forward st1 x2 sl2 = (st2, Inr y2)
     \<and> compute_mask st0 x1 sl1 = Inr msk1 \<and> compute_stats st0 x1 msk1 = Inr (mu1, p1, n1)
     \<and> compute_mask st0 x2 sl2 = Inr msk2 \<and> compute_stats st0 x2 msk2 = Inr (mu2, p2, n2)
     \<and> running_mean st2 = Some rm2
     \<and> (\<forall>j. valid_idx (shape rm0) j \<longrightarrow>
           el rm2 j = m * (m * 0 + (1 - m) * el mu1 j) + (1 - m) * el mu2 j)"
proof -
  have sr0: "shape rm0 = stat_shape st0 x1" and sr0': "shape rm0 = stat_shape st0 x2"
    using r1 r2 tr rm0 by (auto simp add: ready_def buffers_ok_def)
  have e0: "estimate_mode st0 = Inr True" using tn nf0 by (rule estimate_mode_training)
  obtain st1 y1 msk1 mu1 p1 n1 ntv1 rm1 where f1: "forward st0 x1 sl1 = (st1, Inr y1)"
    and m1: "compute_mask st0 x1 sl1 = Inr msk1"
    and c1: "compute_stats st0 x1 msk1 = Inr (mu1, p1, n1)"
    and b1: "num_tracked_values st1 = Some ntv1" "shape ntv1 = stat_shape st0 x1"
      "running_mean st1 = Some rm1" "shape rm1 = stat_shape st0 x1"
    and u1: "\<forall>m j. momentum st0 = Some m \<and> valid_idx (stat_shape st0 x1) j \<longrightarrow>
           el rm1 j = el rm0 j * m + (1 - m) * el mu1 j"
    and q1: "if truthy (scale st0)
        then \<exists>rp p rp'. running_power st0 = Some rp \<and> p1 = Some p
               \<and> running_power st1 = Some rp' \<and> shape rp' = stat_shape st0 x1
               \<and> (\<forall>m j. momentum st0 = Some m \<and> valid_idx (stat_shape st0 x1) j \<longrightarrow>
                     el rp' j = el rp j * m + (1 - m) * el p j)
        else running_power st1 = running_power st0"
    using forward_training_update[OF r1 e0 tr] rm0 by fastforce
  note c = forward_config_fields[OF f1]
  have shp: "map_option shape (num_tracked_values st1) = map_option shape (num_tracked_values st0)"
      "map_option shape (running_mean st1) = map_option shape (running_mean st0)"
      "map_option shape (running_power st1) = map_option shape (running_power st0)"
  proof -
    show "map_option shape (num_tracked_values st1) = map_option shape (num_tracked_values st0)"
      using b1 r1 tr by (auto simp add: ready_def buffers_ok_def)
    show "map_option shape (running_mean st1) = map_option shape (running_mean st0)"
      using b1 r1 tr by (auto simp add: ready_def buffers_ok_def)
    show "map_option shape (running_power st1) = map_option shape (running_power st0)"
    proof (cases "truthy (scale st0)")
      case True
      then show ?thesis using q1 r1 tr by (auto simp add: ready_def buffers_ok_def)
    next
      case False
      then show ?thesis using q1 by simp
    qed
  qed
  have r2': "ready st1 x2 sl2" using ready_after_forward[OF f1 shp r2] .
  have e1: "estimate_mode st1 = Inr True"
    using nf1 f1 tn c(10) by (intro estimate_mode_training) simp_all
  have tr1: "track_running_stats st1" using tr c(5) by simp
  have ss: "stat_shape st1 x2 = stat_shape st0 x2"
    using c(1) by (simp add: stat_shape_def stat_axes_def)
  obtain st2 y2 msk2 mu2 p2 n2 rm2 where f2: "forward st1 x2 sl2 = (st2, Inr y2)"
    and m2: "compute_mask st1 x2 sl2 = Inr msk2"
    and c2: "compute_stats st1 x2 msk2 = Inr (mu2, p2, n2)"
    and b2: "running_mean st2 = Some rm2"
    and u2: "\<forall>m j. momentum st1 = Some m \<and> valid_idx (stat_shape st1 x2) j \<longrightarrow>
           el rm2 j = el rm1 j * m + (1 - m) * el mu2 j"
    using forward_training_update[OF r2' e1 tr1] b1(3) by fastforce
  have m2': "compute_mask st0 x2 sl2 = Inr msk2"
    using m2 compute_mask_config[OF c(3) c(4)] by simp
  have c2': "compute_stats st0 x2 msk2 = Inr (mu2, p2, n2)"
    using c2 compute_stats_config[OF c(1) c(2)] by simp
  have "el rm2 j = m * (m * 0 + (1 - m) * el mu1 j) + (1 - m) * el mu2 j"
    if v: "valid_idx (shape rm0) j" for j
  proof -
    have a: "el rm1 j = (1 - m) * el mu1 j"
      using u1 mo v sr0 z by simp
    have b: "el rm2 j = el rm1 j * m + (1 - m) * el mu2 j"
      using u2 mo c(6) v sr0' ss by simp
    show ?thesis unfolding b a by (simp add: algebra_simps)
  qed
  then show ?thesis using f1 f2 m1 c1 m2' c2' b2 by blast
qed

subsection \<open>The doctest of Norm\<close>

lemma doc_mask:
  assumes "compute_mask doc_norm doc_x (Some [1, 2, 3]) = Inr msk"
    and "b < 3" and "c < 10" and "t < 4"
  shows "el msk [b, c, t] = (if int t < [1, 2, 3] ! b then 1 else 0)"
proof -
  have v: "valid_idx (shape doc_x) [b, c, t]"
    using assms(2-4) by (simp add: valid_idx_def doc_x_def full_def)
  have b: "batch_axis doc_norm < length (shape doc_x)"
    and l: "length [1, 2, 3 :: int] = shape doc_x ! batch_axis doc_norm"
    by (simp_all add: doc_norm_def doc_x_def full_def)
  show ?thesis
    using compute_mask_lengths(2)[OF assms(1) b l v] by (simp add: doc_norm_def)
qed

lemma doc_sums:
  assumes "compute_mask doc_norm doc_x (Some [1, 2, 3]) = Inr msk" and "c < 10"
  shows "count_at doc_norm doc_x msk [0, c, 0] = 6"
    and "sum_at doc_norm doc_x msk [0, c, 0] = 12"
    and "sqsum_at doc_norm doc_x msk [0, c, 0] = 24"
  using assms(2)
  by (simp_all add: count_at_def sum_at_def sqsum_at_def stat_axes_def doc_norm_def
      doc_x_def full_def upt_rec doc_mask[OF assms(1)])

lemma doc_estimate_mode: "estimate_mode doc_norm = Inr True"
  by (simp add: estimate_mode_def freezed_def bindE_def doc_norm_def)

lemma valid_doc_stat: "c < 10 \<Longrightarrow> valid_idx (stat_shape doc_norm doc_x) [0, c, 0]"
  by (simp add: stat_shape_doc valid_idx_def)

text \<open>
  Claim C3. For the instance and the input of the doctest with the lengths \<open>[1, 2, 3]\<close>:
  the rows of the mask along the time axis are \<open>[1,0,0,0]\<close>, \<open>[1,1,0,0]\<close> and
  \<open>[1,1,1,0]\<close> for the three examples, at every channel; \<open>compute_stats\<close> gives the mean
  2 and the power 4 at every channel; and one \<open>forward\<close> call in training mode leaves
  the running mean 1 and the running power 2.5 at every channel.
\<close>

theorem doctest_scenario:
  "Norm_init ''bct'' (Some [None, Some 10, None]) ''bt'' (Some ''c'') CHR ''b'' CHR ''t''
     (Some True) (1 / 100000) (Some (1 / 2)) None = Inr doc_norm
   \<and> training doc_norm
   \<and> (\<exists>msk mean p n st' y rm rp.
         compute_mask doc_norm doc_x (Some [1, 2, 3]) = Inr msk
       \<and> (\<forall>c<10. map (\<lambda>t. el msk [0, c, t]) [0, 1, 2, 3] = [1, 0, 0, 0]
               \<and> map (\<lambda>t. el msk [1, c, t]) [0, 1, 2, 3] = [1, 1, 0, 0]
               \<and> map (\<lambda>t. el msk [2, c, t]) [0, 1, 2, 3] = [1, 1, 1, 0])
       \<and> compute_stats doc_norm doc_x msk = Inr (mean, Some p, n)
       \<and> (\<forall>c<10. el mean [0, c, 0] = 2 \<and> el p [0, c, 0] = 4)
       \<and> forward doc_norm doc_x (Some [1, 2, 3]) = (st', Inr y)
       \<and> running_mean st' = Some rm \<and> running_power st' = Some rp
       \<and> (\<forall>c<10. el rm [0, c, 0] = 1 \<and> el rp [0, c, 0] = 5 / 2))"
proof -
  have tr: "track_running_stats doc_norm" and sc: "truthy (scale doc_norm)"
    and mo: "momentum doc_norm = Some (1 / 2)"
    and rm0: "running_mean doc_norm = Some (zeros [1, 10, 1])"
    and rp0: "running_power doc_norm = Some (ones [1, 10, 1])"
    by (simp_all add: doc_norm_def truthy_def)
  obtain st' y msk mean pwr n rm' rp p rp' where
    f: "forward doc_norm doc_x (Some [1, 2, 3]) = (st', Inr y)"
    and m: "compute_mask doc_norm doc_x (Some [1, 2, 3]) = Inr msk"
    and sm: "shape msk = shape doc_x"
    and cs: "compute_stats doc_norm doc_x msk = Inr (mean, pwr, n)"
    and b: "running_mean st' = Some rm'" "running_power st' = Some rp'"
      "running_power doc_norm = Some rp" "pwr = Some p"
    and u: "\<forall>m j. momentum doc_norm = Some m \<and> valid_idx (stat_shape doc_norm doc_x) j \<longrightarrow>
           el rm' j = el (zeros [1, 10, 1]) j * m + (1 - m) * el mean j"
    and up: "\<forall>m j. momentum doc_norm = Some m \<and> valid_idx (stat_shape doc_norm doc_x) j \<longrightarrow>
           el rp' j = el rp j * m + (1 - m) * el p j"
    using forward_training_update[OF ready_doc doc_estimate_mode tr] sc rm0 by fastforce
  have rp: "rp = ones [1, 10, 1]" using b(3) rp0 by simp
  obtain mean' pwr' n' where cs': "compute_stats doc_norm doc_x msk = Inr (mean', pwr', n')"
    and e: "\<forall>j. valid_idx (stat_shape doc_norm doc_x) j \<longrightarrow>
           el n' j = count_at doc_norm doc_x msk j
         \<and> el mean' j = sum_at doc_norm doc_x msk j / max (count_at doc_norm doc_x msk j) 1"
    and ep: "\<exists>p'. pwr' = Some p'
               \<and> (\<forall>j. valid_idx (stat_shape doc_norm doc_x) j \<longrightarrow>
                      el p' j = sqsum_at doc_norm doc_x msk j
                                / max (count_at doc_norm doc_x msk j) 1)"
    using compute_stats_succeeds[OF _ sm, of doc_norm] ready_doc sc
    by (auto simp add: ready_def)
  have same: "mean' = mean" "pwr' = Some p" using cs cs' b(4) by simp_all
  have stats: "el mean [0, c, 0] = 2 \<and> el p [0, c, 0] = 4" if c: "c < 10" for c
    using e ep same valid_doc_stat[OF c] doc_sums[OF m c] by auto
  have run: "el rm' [0, c, 0] = 1 \<and> el rp' [0, c, 0] = 5 / 2" if c: "c < 10" for c
  proof -
    have 1: "el rm' [0, c, 0]
               = el (zeros [1, 10, 1]) [0, c, 0] * (1 / 2) + (1 - 1 / 2) * el mean [0, c, 0]"
      using u mo valid_doc_stat[OF c] by blast
    have 2: "el rp' [0, c, 0] = el rp [0, c, 0] * (1 / 2) + (1 - 1 / 2) * el p [0, c, 0]"
      using up mo valid_doc_stat[OF c] by blast
    show ?thesis using 1 2 stats[OF c] rp by (simp add: zeros_def ones_def full_def)
  qed
  have rows: "map (\<lambda>t. el msk [0, c, t]) [0, 1, 2, 3] = [1, 0, 0, 0]
            \<and> map (\<lambda>t. el msk [1, c, t]) [0, 1, 2, 3] = [1, 1, 0, 0]
            \<and> map (\<lambda>t. el msk [2, c, t]) [0, 1, 2, 3] = [1, 1, 1, 0]" if c: "c < 10" for c
    using c by (simp add: doc_mask[OF m])
  have tn: "training doc_norm" by (simp add: doc_norm_def)
  show ?thesis
    using Norm_init_doc tn m rows cs b(4) stats f b(1,2) run by blast
qed

theorem doctest_scenario_witness:
  "\<exists>msk st' y rm rp.
      compute_mask doc_norm doc_x (Some [1, 2, 3]) = Inr msk
    \<and> map (\<lambda>t. el msk [1, 7, t]) [0, 1, 2, 3] = [1, 1, 0, 0]
    \<and> forward doc_norm doc_x (Some [1, 2, 3]) = (st', Inr y)
    \<and> running_mean st' = Some rm \<and> running_power st' = Some rp
    \<and> el rm [0, 7, 0] = 1 \<and> el rp [0, 7, 0] = 5 / 2"
proof -
  have "(7::nat) < 10" by simp
  then show ?thesis using doctest_scenario by blast
qed

theorem running_mean_after_two_calls_witness:
  "\<exists>st1 y1 st2 y2 rm2.
      forward doc_norm doc_x (Some [1, 2, 3]) = (st1, Inr y1)
    \<and> forward st1 doc_x (Some [1, 2, 3]) = (st2, Inr y2)
    \<and> running_mean st2 = Some rm2 \<and> el rm2 [0, 0, 0] = 3 / 2"
proof -
  have tr: "track_running_stats doc_norm" and sc: "truthy (scale doc_norm)"
    and mo: "momentum doc_norm = Some (1 / 2)" and tn: "training doc_norm"
    and rm0: "running_mean doc_norm = Some (zeros [1, 10, 1])"
    and z: "\<forall>j. el (zeros [1, 10, 1]) j = 0"
    and nf0: "freezed doc_norm = Inr False"
    by (simp_all add: doc_norm_def truthy_def zeros_def full_def freezed_def)
  have "n_freeze (fst (forward doc_norm doc_x (Some [1, 2, 3]))) = n_freeze doc_norm"
    by (rule forward_config_fields(9)[of doc_norm doc_x "Some [1, 2, 3]" _
          "snd (forward doc_norm doc_x (Some [1, 2, 3]))"]) simp
  then have nf1: "freezed (fst (forward doc_norm doc_x (Some [1, 2, 3]))) = Inr False"
    by (simp add: freezed_def doc_norm_def)
  obtain st1 y1 st2 y2 msk1 mu1 p1 n1 msk2 mu2 p2 n2 rm2 where
    f: "forward doc_norm doc_x (Some [1, 2, 3]) = (st1, Inr y1)"
      "forward st1 doc_x (Some [1, 2, 3]) = (st2, Inr y2)"
    and m: "compute_mask doc_norm doc_x (Some [1, 2, 3]) = Inr msk1"
      "compute_mask doc_norm doc_x (Some [1, 2, 3]) = Inr msk2"
    and c: "compute_stats doc_norm doc_x msk1 = Inr (mu1, p1, n1)"
      "compute_stats doc_norm doc_x msk2 = Inr (mu2, p2, n2)"
    and r: "running_mean st2 = Some rm2"
    and e: "\<forall>j. valid_idx (shape (zeros [1, 10, 1])) j \<longrightarrow>
           el rm2 j = 1 / 2 * (1 / 2 * 0 + (1 - 1 / 2) * el mu1 j) + (1 - 1 / 2) * el mu2 j"
    using running_mean_after_two_calls[OF ready_doc ready_doc tr mo tn rm0 z nf0 nf1] by blast
  have sm: "shape msk1 = shape doc_x" using compute_mask_shape[OF m(1)] .
  have same: "msk2 = msk1" "mu2 = mu1" using m c by simp_all
  obtain mean' pwr' n' where cs': "compute_stats doc_norm doc_x msk1 = Inr (mean', pwr', n')"
    and em: "\<forall>j. valid_idx (stat_shape doc_norm doc_x) j \<longrightarrow>
           el n' j = count_at doc_norm doc_x msk1 j
         \<and> el mean' j = sum_at doc_norm doc_x msk1 j / max (count_at doc_norm doc_x msk1 j) 1"
    using compute_stats_succeeds[OF _ sm, of doc_norm] ready_doc
    by (auto simp add: ready_def)
  have v: "valid_idx (stat_shape doc_norm doc_x) [0, 0, 0]" by (rule valid_doc_stat) simp
  have "el mu1 [0, 0, 0] = 2"
    using em cs' c(1) v doc_sums[OF m(1), of 0] by simp
  moreover have "valid_idx (shape (zeros [1, 10, 1])) [0, 0, 0]"
    by (simp add: zeros_def full_def valid_idx_def)
  ultimately have "el rm2 [0, 0, 0] = 3 / 2" using e same by fastforce
  then show ?thesis using f r by blast
qed

subsection \<open>The freeze threshold and the running mean\<close>

lemma Norm_init_frozen_doc:
  "Norm_init ''bct'' (Some [None, Some 10, None]) ''bt'' (Some ''c'') CHR ''b'' CHR ''t''
     (Some True) (1 / 100000) (Some (1 / 2)) (Some 1) = Inr frozen_doc_norm"
  by (simp add: Norm_init_def bindE_def lower_simps buffer_shape_def Scale_init_def
      Shift_init_def truthy_def Let_def doc_norm_def frozen_doc_norm_def)

lemma stat_shape_frozen_doc: "stat_shape frozen_doc_norm doc_x = [1, 10, 1]"
  by (simp add: stat_shape_def stat_axes_def reduced_dims_def frozen_doc_norm_def
      doc_norm_def doc_x_def full_def)

lemma ready_frozen_doc: "ready frozen_doc_norm doc_x (Some [1, 2, 3])"
  unfolding ready_def
  by (simp add: stat_shape_frozen_doc axes_ok_def buffers_ok_def fits_def lengths_ok_def)
     (simp add: frozen_doc_norm_def doc_norm_def doc_x_def full_def zeros_def ones_def
        truthy_def expandable_def)

lemma indices_doc_stat:
  "indices [1, 10, 1] = map (\<lambda>c. [0, c, 0]) [0..<10]"
  by (simp add: upt_rec)

lemma tmax_item_const:
  assumes "shape t = [1, 10, 1]" and "\<forall>c<10. el t [0, c, 0] = v"
  shows "tmax_item t = Inr v"
proof -
  have "map (el t) (indices (shape t)) = map (\<lambda>c. v) [0..<10]"
    unfolding assms(1) indices_doc_stat using assms(2) by simp
  then show ?thesis by (simp add: tmax_item_def upt_rec)
qed

text \<open>
  Counterexample to claim C6 as stated. The instance is the one of the doctest with
  \<open>n_freeze=1\<close>: it tracks its running statistics with the momentum 1/2, is in training
  mode and starts from a running mean of zeros. It is called twice on the input of the
  doctest, whose mean is 2. The first call counts six values, which reaches the
  threshold, so the second call replays the running statistics and leaves them: the
  running mean is 1 after the two calls, not
  \<open>m * (m * 0 + (1 - m) * 2) + (1 - m) * 2 = 3/2\<close>.
\<close>

theorem running_mean_frozen_by_first_call:
  "\<exists>st0 st1 y1 st2 y2 msk mu p n rm2.
      Norm_init ''bct'' (Some [None, Some 10, None]) ''bt'' (Some ''c'') CHR ''b'' CHR ''t''
        (Some True) (1 / 100000) (Some (1 / 2)) (Some 1) = Inr st0
    \<and> track_running_stats st0 \<and> training st0 \<and> momentum st0 = Some (1 / 2)
    \<and> running_mean st0 = Some (zeros [1, 10, 1])
    \<and> compute_mask st0 doc_x (Some [1, 2, 3]) = Inr msk
    \<and> compute_stats st0 doc_x msk = Inr (mu, p, n) \<and> el mu [0, 0, 0] = 2
    \<and> forward st0 doc_x (Some [1, 2, 3]) = (st1, Inr y1)
    \<and> forward st1 doc_x (Some [1, 2, 3]) = (st2, Inr y2)
    \<and> running_mean st2 = Some rm2 \<and> el rm2 [0, 0, 0] = 1
    \<and> el rm2 [0, 0, 0]
        \<noteq> 1 / 2 * (1 / 2 * 0 + (1 - 1 / 2) * el mu [0, 0, 0]) + (1 - 1 / 2) * el mu [0, 0, 0]"
proof -
  let ?st = frozen_doc_norm
  let ?sl = "Some [1, 2, 3 :: int]"
  have tr: "track_running_stats ?st" and tn: "training ?st"
    and mo: "momentum ?st = Some (1 / 2)"
    and rm0: "running_mean ?st = Some (zeros [1, 10, 1])"
    and ntv0: "num_tracked_values ?st = Some (zeros [1, 10, 1])"
    and nf: "n_freeze ?st = Some 1"
    by (simp_all add: frozen_doc_norm_def doc_norm_def)
  note ss = stat_shape_frozen_doc
  have t0: "tmax_item (zeros [1, 10, 1]) = Inr 0"
    by (rule tmax_item_const) (simp_all add: zeros_def full_def)
  have f0: "freezed ?st = Inr False"
    using t0 by (simp add: freezed_def bindE_def nf tr ntv0)
  have e0: "estimate_mode ?st = Inr True" using tn f0 by (rule estimate_mode_training)
  have sc: "truthy (scale ?st)" by (simp add: frozen_doc_norm_def doc_norm_def truthy_def)
  obtain st1 y1 msk mu p n ntv1 rm1 rp1 where f1: "forward ?st doc_x ?sl = (st1, Inr y1)"
    and m: "compute_mask ?st doc_x ?sl = Inr msk" and sm: "shape msk = shape doc_x"
    and c: "compute_stats ?st doc_x msk = Inr (mu, p, n)"
    and b1: "num_tracked_values st1 = Some ntv1" "shape ntv1 = stat_shape ?st doc_x"
      "running_mean st1 = Some rm1" "shape rm1 = stat_shape ?st doc_x"
      "running_power st1 = Some rp1" "shape rp1 = stat_shape ?st doc_x"
    and un: "\<forall>j. valid_idx (stat_shape ?st doc_x) j \<longrightarrow>
           el ntv1 j = el (zeros [1, 10, 1]) j + el n j"
    and u1: "\<forall>m j. momentum ?st = Some m \<and> valid_idx (stat_shape ?st doc_x) j \<longrightarrow>
           el rm1 j = el (zeros [1, 10, 1]) j * m + (1 - m) * el mu j"
    using forward_training_update[OF ready_frozen_doc e0 tr] sc rm0 ntv0 by fastforce
  have m': "compute_mask doc_norm doc_x ?sl = Inr msk"
    using m compute_mask_config[of ?st doc_norm] by (simp add: frozen_doc_norm_def)
  obtain mean' pwr' n' where cs': "compute_stats ?st doc_x msk = Inr (mean', pwr', n')"
    and em: "\<forall>j. valid_idx (stat_shape ?st doc_x) j \<longrightarrow>
           el n' j = count_at ?st doc_x msk j
         \<and> el mean' j = sum_at ?st doc_x msk j / max (count_at ?st doc_x msk j) 1"
    using compute_stats_succeeds[OF _ sm, of ?st] ready_frozen_doc
    by (auto simp add: ready_def)
  have same: "mean' = mu" "n' = n" using c cs' by simp_all
  have cnt: "count_at ?st doc_x msk [0, k, 0] = 6 \<and> sum_at ?st doc_x msk [0, k, 0] = 12"
    if "k < 10" for k
  proof -
    have eq: "stat_axes ?st doc_x = stat_axes doc_norm doc_x"
      by (simp add: stat_axes_def frozen_doc_norm_def)
    show ?thesis
      using doc_sums(1,2)[OF m' that, unfolded count_at_def sum_at_def]
      unfolding count_at_def sum_at_def eq by simp
  qed
  have v: "valid_idx (stat_shape ?st doc_x) [0, k, 0]" if "k < 10" for k
    using that by (simp add: ss valid_idx_def)
  have n6: "el n [0, k, 0] = 6" and mu2: "el mu [0, k, 0] = 2" if "k < 10" for k
    using em same v[OF that] cnt[OF that] by auto
  have "el ntv1 [0, k, 0] = 6" if "k < 10" for k
    using un v[OF that] n6[OF that] by (simp add: zeros_def full_def)
  then have t1: "tmax_item ntv1 = Inr 6"
    using b1(2) ss by (intro tmax_item_const) simp_all
  note cf = forward_config_fields[OF f1]
  have f1': "freezed st1 = Inr True"
    using t1 b1(1) cf(5,9) tr nf by (simp add: freezed_True_iff)
  have r1: "ready st1 doc_x ?sl"
  proof -
    have sst: "stat_shape st1 doc_x = stat_shape ?st doc_x"
      using cf(1) by (simp add: stat_shape_def stat_axes_def)
    have "buffers_ok st1 doc_x"
      using b1 sst by (simp add: buffers_ok_def)
    then show ?thesis
      using ready_frozen_doc cf sst
      by (simp add: ready_def axes_ok_def lengths_ok_def)
  qed
  obtain st2 y2 where f2: "forward st1 doc_x ?sl = (st2, Inr y2)"
    using forward_succeeds[OF r1] by blast
  have "fst (forward st1 doc_x ?sl) = st1"
    using forward_replay[OF freezed_estimate_mode[OF f1'], of doc_x ?sl] by simp
  then have st2: "st2 = st1" using f2 by simp
  have k0: "(0::nat) < 10" by simp
  have "el rm1 [0, 0, 0] = el (zeros [1, 10, 1]) [0, 0, 0] * (1 / 2) + (1 - 1 / 2) * el mu [0, 0, 0]"
    using u1 mo v[OF k0] by blast
  then have rm1: "el rm1 [0, 0, 0] = 1"
    using mu2[OF k0] by (simp add: zeros_def full_def)
  have "el rm1 [0, 0, 0]
      \<noteq> 1 / 2 * (1 / 2 * 0 + (1 - 1 / 2) * el mu [0, 0, 0]) + (1 - 1 / 2) * el mu [0, 0, 0]"
    using rm1 mu2[OF k0] by simp
  then show ?thesis
    using Norm_init_frozen_doc tr tn mo rm0 m c mu2[OF k0] f1 f2 b1(3) rm1 st2 by blast
qed

subsection \<open>Empty windows and the cumulative average\<close>

lemma Norm_init_cumulative_doc:
  "Norm_init ''bct'' (Some [None, Some 10, None]) ''bt'' (Some ''c'') CHR ''b'' CHR ''t''
     (Some True) (1 / 100000) None None = Inr cumulative_doc_norm"
  by (simp add: Norm_init_def bindE_def lower_simps buffer_shape_def Scale_init_def
      Shift_init_def truthy_def Let_def doc_norm_def cumulative_doc_norm_def)

lemma stat_shape_cumulative_doc: "stat_shape cumulative_doc_norm doc_x = [1, 10, 1]"
  by (simp add: stat_shape_def stat_axes_def reduced_dims_def cumulative_doc_norm_def
      doc_norm_def doc_x_def full_def)

lemma empty_mask:
  assumes "compute_mask cumulative_doc_norm doc_x (Some [0, 0, 0]) = Inr msk"
    and "b < 3" and "c < 10" and "t < 4"
  shows "el msk [b, c, t] = 0"
proof -
  have v: "valid_idx (shape doc_x) [b, c, t]"
    using assms(2-4) by (simp add: valid_idx_def doc_x_def full_def)
  have b: "batch_axis cumulative_doc_norm < length (shape doc_x)"
    and l: "length [0, 0, 0 :: int] = shape doc_x ! batch_axis cumulative_doc_norm"
    by (simp_all add: cumulative_doc_norm_def doc_norm_def doc_x_def full_def)
  have "[0, 0, 0 :: int] ! b = 0" using assms(2) by (cases b rule: nat.exhaust) (auto simp add: nth_Cons')
  then show ?thesis
    using compute_mask_lengths(2)[OF assms(1) b l v]
    by (simp add: cumulative_doc_norm_def doc_norm_def)
qed

text \<open>
  The failing input of claim C8. The instance is the one of the doctest with
  \<open>momentum=None\<close>, in training mode and freshly constructed; the input is the one of
  the doctest, and every length is 0, so every window of the statistics is empty. At
  line 213, \<open>momentum = 1 - n_values / self.num_tracked_values\<close>, both the count of the
  call and the count buffer, to which line 211 has added it, are 0: the quotient is
  0 / 0, which is NaN in the arithmetic of the tensor runtime. The counts that
  \<open>compute_stats\<close> divides by are clamped; this one is not.
\<close>

theorem cumulative_average_divides_zero_by_zero:
  "\<exists>st0 msk mean p n ntv'.
      Norm_init ''bct'' (Some [None, Some 10, None]) ''bt'' (Some ''c'') CHR ''b'' CHR ''t''
        (Some True) (1 / 100000) None None = Inr st0
    \<and> training st0 \<and> track_running_stats st0 \<and> estimate_mode st0 = Inr True
    \<and> momentum st0 = None \<and> num_tracked_values st0 = Some (zeros [1, 10, 1])
    \<and> compute_mask st0 doc_x (Some [0, 0, 0]) = Inr msk
    \<and> compute_stats st0 doc_x msk = Inr (mean, p, n)
    \<and> tbin_inplace (+) (zeros [1, 10, 1]) n = Inr ntv'
    \<and> el n [0, 0, 0] = 0 \<and> el ntv' [0, 0, 0] = 0"
proof -
  let ?st = cumulative_doc_norm
  let ?sl = "Some [0, 0, 0 :: int]"
  have tn: "training ?st" and tr: "track_running_stats ?st" and mo: "momentum ?st = None"
    and ntv0: "num_tracked_values ?st = Some (zeros [1, 10, 1])"
    and em: "estimate_mode ?st = Inr True"
    by (simp_all add: cumulative_doc_norm_def doc_norm_def estimate_mode_def freezed_def
        bindE_def)
  have lo: "lengths_ok ?st doc_x ?sl"
    by (simp add: lengths_ok_def cumulative_doc_norm_def doc_norm_def doc_x_def full_def)
  obtain msk where m: "compute_mask ?st doc_x ?sl = Inr msk" and sm: "shape msk = shape doc_x"
    using compute_mask_succeeds[OF lo] by blast
  have ax: "axes_ok ?st doc_x"
    by (simp add: axes_ok_def cumulative_doc_norm_def doc_norm_def doc_x_def full_def)
  obtain mean p n where c: "compute_stats ?st doc_x msk = Inr (mean, p, n)"
    and sn: "shape n = stat_shape ?st doc_x"
    and e: "\<forall>j. valid_idx (stat_shape ?st doc_x) j \<longrightarrow> el n j = count_at ?st doc_x msk j"
    using compute_stats_succeeds[OF ax sm] by blast
  have v: "valid_idx (stat_shape ?st doc_x) [0, 0, 0]"
    by (simp add: stat_shape_cumulative_doc valid_idx_def)
  have "count_at ?st doc_x msk [0, 0, 0] = 0"
    by (simp add: count_at_def stat_axes_def cumulative_doc_norm_def doc_norm_def
        doc_x_def full_def upt_rec empty_mask[OF m])
  then have n0: "el n [0, 0, 0] = 0" using e v by simp
  have "tbin_inplace (+) (zeros [1, 10, 1]) n
      = Inr \<lparr>shape = [1, 10, 1],
             el = (\<lambda>i. el (zeros [1, 10, 1]) (bidx [1, 10, 1] i) + el n (bidx (shape n) i))\<rparr>"
    by (rule tbin_inplace_fit)
       (simp_all add: zeros_def full_def sn stat_shape_cumulative_doc expandable_refl)
  moreover have "bidx (shape n) [0, 0, 0] = [0, 0, 0]"
    using bidx_id[of "shape n" "[0, 0, 0]"] v sn by simp
  ultimately show ?thesis
    using Norm_init_cumulative_doc tn tr em mo ntv0 m c n0
    by (auto simp add: zeros_def full_def)
qed

theorem cumulative_average_divides_zero_by_zero_witness:
  "\<exists>st0 msk mean p n ntv'.
      Norm_init ''bct'' (Some [None, Some 10, None]) ''bt'' (Some ''c'') CHR ''b'' CHR ''t''
        (Some True) (1 / 100000) None None = Inr st0
    \<and> momentum st0 = None
    \<and> compute_mask st0 doc_x (Some [0, 0, 0]) = Inr msk
    \<and> compute_stats st0 doc_x msk = Inr (mean, p, n)
    \<and> tbin_inplace (+) (zeros [1, 10, 1]) n = Inr ntv'
    \<and> el n [0, 0, 0] = 0 \<and> el ntv' [0, 0, 0] = 0"
proof -
  obtain st0 msk mean p n ntv' where
    "Norm_init ''bct'' (Some [None, Some 10, None]) ''bt'' (Some ''c'') CHR ''b'' CHR ''t''
        (Some True) (1 / 100000) None None = Inr st0"
    and "momentum st0 = None"
    and "compute_mask st0 doc_x (Some [0, 0, 0]) = Inr msk"
    and "compute_stats st0 doc_x msk = Inr (mean, p, n)"
    and "tbin_inplace (+) (zeros [1, 10, 1]) n = Inr ntv'"
    and "el n [0, 0, 0] = 0" and "el ntv' [0, 0, 0] = 0"
    using cumulative_average_divides_zero_by_zero by blast
  then show ?thesis by (intro exI[of _ st0] exI[of _ msk] exI[of _ mean] exI[of _ p]
        exI[of _ n] exI[of _ ntv']) simp
qed

subsection \<open>Sorting by condition\<close>

lemma length_argsort: "length (argsort cs) = length cs"
  by (simp add: argsort_def)

lemma set_argsort: "set (argsort cs) = {0..<length cs}"
  by (simp add: argsort_def)

lemma distinct_argsort: "distinct (argsort cs)"
  by (simp add: argsort_def)

lemma sorted_argsort: "sorted (map (\<lambda>k. cs ! k) (argsort cs))"
  by (simp add: argsort_def)

lemma argsort_stable:
  "filter (\<lambda>k. cs ! k = c) (argsort cs) = filter (\<lambda>k. cs ! k = c) [0..<length cs]"
  unfolding argsort_def by (rule sort_key_stable)

lemma argsort_less: "k < length cs \<Longrightarrow> argsort cs ! k < length cs"
  using set_argsort[of cs] nth_mem[of k "argsort cs"] by (simp add: length_argsort)

lemma map_nth_filter:
  "map (\<lambda>k. xs ! k) (filter (\<lambda>k. P (xs ! k)) [0..<length xs]) = filter P xs"
proof -
  have "filter P xs = filter P (map (\<lambda>k. xs ! k) [0..<length xs])"
    by (simp add: map_nth)
  also have "\<dots> = map (\<lambda>k. xs ! k) (filter (\<lambda>k. P (xs ! k)) [0..<length xs])"
    by (simp add: filter_map comp_def)
  finally show ?thesis by simp
qed

lemma split_least_key:
  fixes f :: "'a \<Rightarrow> int"
  assumes "sorted (map f xs)" and "\<forall>x\<in>set xs. c \<le> f x"
  shows "filter (\<lambda>x. f x = c) xs @ filter (\<lambda>x. f x \<noteq> c) xs = xs"
  using assms
proof (induction xs)
  case Nil
  then show ?case by simp
next
  case (Cons a xs)
  show ?case
  proof (cases "f a = c")
    case True
    then show ?thesis using Cons by simp
  next
    case False
    then have "\<forall>x\<in>set xs. f x \<noteq> c" using Cons.prems by fastforce
    then have "filter (\<lambda>x. f x = c) xs = []" and "filter (\<lambda>x. f x \<noteq> c) xs = xs"
      by (simp_all add: filter_empty_conv filter_id_conv)
    then show ?thesis using False by simp
  qed
qed

lemma concat_by_key:
  fixes f :: "'a \<Rightarrow> int"
  assumes "sorted (map f xs)" and "sorted keys" and "distinct keys" and "f ` set xs \<subseteq> set keys"
  shows "concat (map (\<lambda>c. filter (\<lambda>x. f x = c) xs) keys) = xs"
  using assms
proof (induction keys arbitrary: xs)
  case Nil
  then show ?case by simp
next
  case (Cons c ks)
  let ?xs' = "filter (\<lambda>x. f x \<noteq> c) xs"
  have 1: "sorted (map f ?xs')" using Cons.prems(1) by (rule sorted_filter)
  have 2: "f ` set ?xs' \<subseteq> set ks" using Cons.prems(4) by auto
  have ih: "concat (map (\<lambda>c'. filter (\<lambda>x. f x = c') ?xs') ks) = ?xs'"
    using Cons.IH[OF 1 _ _ 2] Cons.prems(2,3) by simp
  have "filter (\<lambda>x. f x = c') ?xs' = filter (\<lambda>x. f x = c') xs" if "c' \<in> set ks" for c'
  proof -
    have "c' \<noteq> c" using that Cons.prems(3) by auto
    then show ?thesis by (auto intro!: filter_cong)
  qed
  then have eq: "map (\<lambda>c'. filter (\<lambda>x. f x = c') xs) ks = map (\<lambda>c'. filter (\<lambda>x. f x = c') ?xs') ks"
    by (intro map_cong) simp_all
  have 3: "concat (map (\<lambda>c'. filter (\<lambda>x. f x = c') xs) ks) = ?xs'"
    unfolding eq by (rule ih)
  have "\<forall>x\<in>set xs. c \<le> f x" using Cons.prems(2,4) by fastforce
  then show ?case using split_least_key[OF Cons.prems(1)] 3 by simp
qed

lemma concat_groups_sorted:
  fixes cs :: "int list"
  assumes "sorted cs"
  shows "concat (map (\<lambda>c. filter (\<lambda>k. cs ! k = c) [0..<length cs]) (sort (remdups cs)))
           = [0..<length cs]"
proof (rule concat_by_key)
  show "sorted (map (\<lambda>k. cs ! k) [0..<length cs])" using assms by (simp add: map_nth)
  show "sorted (sort (remdups cs))" by simp
  show "distinct (sort (remdups cs))" by simp
  show "(\<lambda>k. cs ! k) ` set [0..<length cs] \<subseteq> set (sort (remdups cs))" by auto
qed

lemma nth_concat_pos:
  assumes "g < length xss" and "p < length (xss ! g)"
  shows "concat xss ! (length (concat (take g xss)) + p) = xss ! g ! p"
    and "length (concat (take g xss)) + p < length (concat xss)"
proof -
  have "xss = take g xss @ (xss ! g) # drop (Suc g) xss"
    using assms(1) by (simp add: id_take_nth_drop)
  then have c: "concat xss = concat (take g xss) @ (xss ! g) @ concat (drop (Suc g) xss)"
    by (metis concat.simps(2) concat_append)
  show "concat xss ! (length (concat (take g xss)) + p) = xss ! g ! p"
    by (subst c) (simp add: nth_append assms(2))
  have "length (concat xss)
      = length (concat (take g xss)) + length (xss ! g) + length (concat (drop (Suc g) xss))"
    using arg_cong[OF c, of length] by simp
  then show "length (concat (take g xss)) + p < length (concat xss)"
    using assms(2) by simp
qed

subsection \<open>Storing and taking by index\<close>

lemma fold_update_length:
  "length (fold (\<lambda>(k, v) d. d[k := v]) kvs a) = length a"
  by (induction kvs arbitrary: a) auto

lemma fold_update_other:
  "k \<notin> fst ` set kvs \<Longrightarrow> fold (\<lambda>(k, v) d. d[k := v]) kvs a ! k = a ! k"
  by (induction kvs arbitrary: a) auto

lemma fold_update_nth:
  assumes "distinct idx" and "length vals = length idx" and "\<forall>k\<in>set idx. k < length a"
    and "n < length idx"
  shows "fold (\<lambda>(k, v) d. d[k := v]) (zip idx vals) a ! (idx ! n) = vals ! n"
  using assms
proof (induction idx arbitrary: vals a n)
  case Nil
  then show ?case by simp
next
  case (Cons i idx)
  then obtain v vs where vals: "vals = v # vs" by (cases vals) auto
  show ?case
  proof (cases n)
    case 0
    have "i \<notin> fst ` set (zip idx vs)" using Cons.prems(1) by (auto dest: set_zip_leftD)
    then show ?thesis using 0 vals Cons.prems(3) by (simp add: fold_update_other)
  next
    case (Suc m)
    then show ?thesis using Cons vals by simp
  qed
qed

lemma np_put_inverse:
  assumes "np_put a idx vals = Inr r" and "distinct idx" and "length vals = length idx"
  shows "length r = length a" and "n < length idx \<Longrightarrow> r ! (idx ! n) = vals ! n"
proof -
  have b: "\<forall>k\<in>set idx. k < length a" and r: "r = fold (\<lambda>(k, v) d. d[k := v]) (zip idx vals) a"
    using assms(1,3) by (auto simp add: np_put_def not_le split: if_splits)
  show "length r = length a" by (simp add: r fold_update_length)
  show "n < length idx \<Longrightarrow> r ! (idx ! n) = vals ! n"
    unfolding r using fold_update_nth[OF assms(2,3) b] by simp
qed

lemma np_put_succeeds:
  assumes "\<forall>k\<in>set idx. k < length a" and "length vals = length idx"
  shows "\<exists>r. np_put a idx vals = Inr r"
  using assms by (auto simp add: np_put_def)

lemma index_rows_Inr:
  assumes "index_rows x idx = Inr y"
  shows "\<exists>b. shape x = b # tl (shape x) \<and> (\<forall>k\<in>set idx. k < b)"
    and "shape y = length idx # tl (shape x)"
    and "r < length idx \<Longrightarrow> el y (r # j) = el x (idx ! r # j)"
  using assms by (auto simp add: index_rows_def not_le split: list.splits if_splits)

lemma index_rows_succeeds:
  assumes "shape x = b # s" and "\<forall>k\<in>set idx. k < b"
  shows "\<exists>y. index_rows x idx = Inr y"
  using assms by (auto simp add: index_rows_def)

lemma map_nth_bound:
  fixes b :: nat
  assumes "\<forall>k\<in>set ia. k < length idx" and "\<forall>k\<in>set idx. k < b"
  shows "\<not> (\<exists>k\<in>set (map (\<lambda>k. idx ! k) ia). b \<le> k)"
proof
  assume "\<exists>k\<in>set (map (\<lambda>k. idx ! k) ia). b \<le> k"
  then obtain a where a: "a \<in> set ia" "b \<le> idx ! a" by auto
  then have "idx ! a \<in> set idx" using assms(1) by (intro nth_mem) simp
  then show False using assms(2) a(2) by fastforce
qed

lemma index_rows_compose:
  assumes "index_rows x idx = Inr y" and "\<forall>k\<in>set ia. k < length idx"
  shows "index_rows y ia = index_rows x (map (\<lambda>k. idx ! k) ia)"
proof -
  obtain b s where x: "shape x = b # s" and bd: "\<forall>k\<in>set idx. k < b"
    and y: "y = \<lparr>shape = length idx # s,
                 el = (\<lambda>i. case i of [] \<Rightarrow> 0
                          | r # j \<Rightarrow> if r < length idx then el x (idx ! r # j) else 0)\<rparr>"
    using assms(1) by (auto simp add: index_rows_def not_le split: list.splits if_splits)
  have 1: "\<not> (\<exists>k\<in>set ia. length idx \<le> k)" using assms(2) by auto
  have 2: "\<not> (\<exists>k\<in>set (map (\<lambda>k. idx ! k) ia). b \<le> k)"
    using assms(2) bd by (rule map_nth_bound)
  have "(case i of [] \<Rightarrow> 0 | r # j \<Rightarrow> if r < length ia then el y (ia ! r # j) else 0)
      = (case i of [] \<Rightarrow> 0
         | r # j \<Rightarrow> if r < length (map (\<lambda>k. idx ! k) ia)
                     then el x (map (\<lambda>k. idx ! k) ia ! r # j) else 0)" for i
    using assms(2) by (cases i) (auto simp add: y)
  then have 3: "(\<lambda>i. case i of [] \<Rightarrow> 0
                     | r # j \<Rightarrow> if r < length ia then el y (ia ! r # j) else 0)
      = (\<lambda>i. case i of [] \<Rightarrow> 0
         | r # j \<Rightarrow> if r < length (map (\<lambda>k. idx ! k) ia)
                     then el x (map (\<lambda>k. idx ! k) ia ! r # j) else 0)"
    by (intro ext)
  have sy: "shape y = length idx # s" by (simp add: y)
  show ?thesis
    unfolding index_rows_def using 1 2 by (simp only: x sy 3 list.case if_False length_map)
qed

lemma take_lengths_compose:
  assumes "take_lengths sl idx = Inr sl'" and "\<forall>k\<in>set ia. k < length idx"
  shows "take_lengths sl' ia = take_lengths sl (map (\<lambda>k. idx ! k) ia)"
proof (cases sl)
  case None
  then show ?thesis using assms by (auto simp add: take_lengths_def)
next
  case (Some l)
  then have b: "\<forall>k\<in>set idx. k < length l" and s: "sl' = Some (map (\<lambda>k. l ! k) idx)"
    using assms(1) by (auto simp add: take_lengths_def np_take_def not_le split: if_splits)
  have "\<not> (\<exists>k\<in>set (map (\<lambda>k. idx ! k) ia). length l \<le> k)"
    using assms(2) b by (rule map_nth_bound)
  moreover have "\<not> (\<exists>k\<in>set ia. length (map (\<lambda>k. l ! k) idx) \<le> k)"
    using assms(2) by auto
  ultimately show ?thesis
    using assms(2) by (simp add: take_lengths_def np_take_def s Some del: set_map)
qed

lemma cat_el_rows:
  assumes "\<forall>g<length ys. hd (shape (ys ! g)) = rs ! g" and "length rs = length ys"
    and "g < length ys" and "p < rs ! g"
  shows "cat_el ys ((sum_list (take g rs) + p) # j) = el (ys ! g) (p # j)"
  using assms
proof (induction ys arbitrary: rs g)
  case Nil
  then show ?case by simp
next
  case (Cons t ts)
  then obtain r rs' where rs: "rs = r # rs'" by (cases rs) auto
  have r: "hd (shape t) = r" using Cons.prems(1) rs by auto
  show ?case
  proof (cases g)
    case 0
    then show ?thesis using Cons.prems(4) rs r by simp
  next
    case (Suc g')
    have 1: "\<forall>g<length ts. hd (shape (ts ! g)) = rs' ! g" using Cons.prems(1) rs by auto
    have "cat_el ts ((sum_list (take g' rs') + p) # j) = el (ts ! g') (p # j)"
      using Cons.IH[OF 1, of g'] Cons.prems(2,3,4) rs Suc by simp
    then show ?thesis using Suc rs r by (simp add: add.assoc)
  qed
qed

subsection \<open>The groups of a conditioned call\<close>

lemma expandable_row:
  assumes "expandable a (1 # s)"
  shows "expandable a (m # s)"
proof (cases "length a \<le> length s")
  case True
  then have "drop (length (1 # s) - length a) (1 # s) = drop (length s - length a) s"
    and "drop (length (m # s) - length a) (m # s) = drop (length s - length a) s"
    by (simp_all add: Suc_diff_le)
  then show ?thesis using assms True by (simp add: expandable_def)
next
  case False
  then have l: "length a = Suc (length s)" using assms by (simp add: expandable_def)
  then obtain d a' where a: "a = d # a'" by (cases a) auto
  show ?thesis using assms l by (auto simp add: expandable_def a)
qed

lemma conforms_rows_group:
  assumes "conforms_rows st x" and "shape xg = m # tl (shape x)"
  shows "conforms st xg"
  using assms expandable_row[of _ "tl (shape x)" m]
  by (auto simp add: conforms_rows_def conforms_def fits_def split: option.splits)

lemma py_index_nonneg:
  assumes "py_index n c = Inr k" and "0 \<le> c"
  shows "k = nat c" and "c < int n"
  using assms by (auto simp add: py_index_def split: if_splits)

lemma run_groups_Inr:
  assumes "run_groups ns x sl gs = (ns', Inr ys)"
    and "distinct (map fst gs)" and "\<forall>g\<in>set gs. 0 \<le> fst g"
  shows "length ys = length gs \<and> length ns' = length ns
     \<and> (\<forall>g<length gs.
           nat (fst (gs ! g)) < length ns
         \<and> (\<exists>xg slg. index_rows x (snd (gs ! g)) = Inr xg
               \<and> take_lengths sl (snd (gs ! g)) = Inr slg
               \<and> forward (ns ! nat (fst (gs ! g))) xg slg
                  = (ns' ! nat (fst (gs ! g)), Inr (ys ! g))))
     \<and> (\<forall>k<length ns. int k \<notin> fst ` set gs \<longrightarrow> ns' ! k = ns ! k)"
  using assms
proof (induction gs arbitrary: ns ys)
  case Nil
  then show ?case by simp
next
  case (Cons a gs)
  obtain c ia where a: "a = (c, ia)" by (cases a) auto
  have run: "run_groups ns x sl ((c, ia) # gs) = (ns', Inr ys)"
    and dist: "distinct (map fst gs)" "c \<notin> fst ` set gs"
    and nn: "0 \<le> c" "\<forall>g\<in>set gs. 0 \<le> fst g"
    using Cons.prems by (auto simp add: a)
  obtain k xg slg nk y ys' where k: "py_index (length ns) c = Inr k"
    and xg: "index_rows x ia = Inr xg" and slg: "take_lengths sl ia = Inr slg"
    and f: "forward (ns ! k) xg slg = (nk, Inr y)"
    and rest: "run_groups (ns[k := nk]) x sl gs = (ns', Inr ys')"
    and ys: "ys = y # ys'"
    using run by (auto split: sum.splits prod.splits)
  have kc: "k = nat c" and kn: "k < length ns"
    using py_index_nonneg[OF k nn(1)] nn(1) by auto
  have ih: "length ys' = length gs" "length ns' = length ns"
    "\<And>g. g < length gs \<Longrightarrow>
           nat (fst (gs ! g)) < length ns
         \<and> (\<exists>xg slg. index_rows x (snd (gs ! g)) = Inr xg
               \<and> take_lengths sl (snd (gs ! g)) = Inr slg
               \<and> forward (ns[k := nk] ! nat (fst (gs ! g))) xg slg
                  = (ns' ! nat (fst (gs ! g)), Inr (ys' ! g)))"
    "\<And>j. j < length ns \<Longrightarrow> int j \<notin> fst ` set gs \<Longrightarrow> ns' ! j = ns[k := nk] ! j"
    using Cons.IH[OF rest dist(1) nn(2)] by simp_all
  have other: "nat c' \<noteq> k" if "c' \<in> fst ` set gs" for c'
  proof -
    have "c' \<noteq> c" and "0 \<le> c'" using that dist(2) nn(2) by auto
    then show ?thesis using kc nn(1) by (simp add: nat_eq_iff)
  qed
  have keep: "ns' ! k = nk"
  proof -
    have "int k \<notin> fst ` set gs" using dist(2) kc nn(1) by simp
    then show ?thesis using ih(4)[of k] kn by simp
  qed
  have 3: "nat (fst ((a # gs) ! g)) < length ns
         \<and> (\<exists>xg slg. index_rows x (snd ((a # gs) ! g)) = Inr xg
               \<and> take_lengths sl (snd ((a # gs) ! g)) = Inr slg
               \<and> forward (ns ! nat (fst ((a # gs) ! g))) xg slg
                  = (ns' ! nat (fst ((a # gs) ! g)), Inr (ys ! g)))"
    if g: "g < length (a # gs)" for g
  proof (cases g)
    case 0
    then show ?thesis using xg slg f keep kc kn ys by (simp add: a)
  next
    case (Suc g')
    then have g': "g' < length gs" using g by simp
    then have "fst (gs ! g') \<in> fst ` set gs" by simp
    then have "nat (fst (gs ! g')) \<noteq> k" by (rule other)
    then show ?thesis using ih(3)[OF g'] Suc ys by simp
  qed
  have 4: "ns' ! j = ns ! j" if "j < length ns" and "int j \<notin> fst ` set (a # gs)" for j
  proof -
    have "int j \<notin> fst ` set gs" and "j \<noteq> k" using that(2) kc nn(1) by (auto simp add: a)
    then show ?thesis using ih(4)[OF that(1)] by simp
  qed
  show ?case using ih(1,2) ys 3 4 by simp
qed

lemma run_groups_succeeds:
  assumes "distinct (map fst gs)"
    and "\<forall>g\<in>set gs. 0 \<le> fst g \<and> fst g < int (length ns)
           \<and> (\<exists>xg slg. index_rows x (snd g) = Inr xg \<and> take_lengths sl (snd g) = Inr slg
                 \<and> ready (ns ! nat (fst g)) xg slg)"
  shows "\<exists>ns' ys. run_groups ns x sl gs = (ns', Inr ys)"
  using assms
proof (induction gs arbitrary: ns)
  case Nil
  then show ?case by simp
next
  case (Cons a gs)
  obtain c ia where a: "a = (c, ia)" by (cases a) auto
  have c: "0 \<le> c" "c < int (length ns)" and dist: "distinct (map fst gs)" "c \<notin> fst ` set gs"
    using Cons.prems by (auto simp add: a)
  obtain xg slg where xg: "index_rows x ia = Inr xg" and slg: "take_lengths sl ia = Inr slg"
    and r: "ready (ns ! nat c) xg slg"
    using Cons.prems(2) by (auto simp add: a)
  obtain nk y where f: "forward (ns ! nat c) xg slg = (nk, Inr y)"
    using forward_succeeds[OF r] by blast
  have "\<forall>g\<in>set gs. 0 \<le> fst g \<and> fst g < int (length (ns[nat c := nk]))
           \<and> (\<exists>xg slg. index_rows x (snd g) = Inr xg \<and> take_lengths sl (snd g) = Inr slg
                 \<and> ready (ns[nat c := nk] ! nat (fst g)) xg slg)"
  proof
    fix g assume g: "g \<in> set gs"
    then have "fst g \<noteq> c" using dist(2) by auto
    moreover have "0 \<le> fst g" using Cons.prems(2) g by simp
    ultimately have "nat (fst g) \<noteq> nat c" using c(1) by (simp add: nat_eq_iff)
    then show "0 \<le> fst g \<and> fst g < int (length (ns[nat c := nk]))
           \<and> (\<exists>xg slg. index_rows x (snd g) = Inr xg \<and> take_lengths sl (snd g) = Inr slg
                 \<and> ready (ns[nat c := nk] ! nat (fst g)) xg slg)"
      using Cons.prems(2) g by simp
  qed
  then obtain ns' ys where "run_groups (ns[nat c := nk]) x sl gs = (ns', Inr ys)"
    using Cons.IH[OF dist(1)] by blast
  then show ?case using c xg slg f by (simp add: a py_index_def)
qed

lemma normalize_groups_Inr:
  assumes "normalize_groups cn x conds sl = (ns, Inr (xr, sl'))"
  shows "\<exists>b s ri xs cs' ys xc.
      shape x = b # s
    \<and> np_put (replicate b 0) (argsort conds) [0..<b] = Inr ri
    \<and> index_rows x (argsort conds) = Inr xs
    \<and> take_lengths sl (argsort conds) = Inr sl'
    \<and> np_take conds (argsort conds) = Inr cs'
    \<and> run_groups (norms cn) xs sl'
         (zip (sort (remdups cs'))
            (map (\<lambda>c. filter (\<lambda>k. cs' ! k = c) [0..<length cs']) (sort (remdups cs'))))
        = (ns, Inr ys)
    \<and> cat ys = Inr xc \<and> index_rows xc ri = Inr xr"
  using assms
  by (auto simp add: normalize_groups_def Let_def bindE_def
      split: list.splits sum.splits prod.splits)

lemma cat_Inr:
  assumes "cat ys = Inr xc"
  shows "ys \<noteq> []" and "el xc = cat_el ys"
    and "shape xc = sum_list (map (\<lambda>u. hd (shape u)) ys) # tl (shape (hd ys))"
  using assms by (auto simp add: cat_def split: list.splits if_splits)

lemma group_of_sorted:
  assumes "length conds = b"
  shows "map (\<lambda>k. argsort conds ! k)
           (filter (\<lambda>k. map (\<lambda>k. conds ! k) (argsort conds) ! k = c) [0..<b])
         = members conds c"
proof -
  let ?si = "argsort conds"
  have l: "length ?si = b" using assms by (simp add: length_argsort)
  have "filter (\<lambda>k. map (\<lambda>k. conds ! k) ?si ! k = c) [0..<b]
      = filter (\<lambda>k. conds ! (?si ! k) = c) [0..<length ?si]"
    unfolding l by (rule filter_cong) (simp_all add: l)
  then have "map (\<lambda>k. ?si ! k) (filter (\<lambda>k. map (\<lambda>k. conds ! k) ?si ! k = c) [0..<b])
      = filter (\<lambda>i. conds ! i = c) ?si"
    using map_nth_filter[of ?si "\<lambda>i. conds ! i = c"] by simp
  then show ?thesis by (simp add: argsort_stable members_def)
qed

lemma zip_map_same: "zip xs (map f xs) = map (\<lambda>x. (x, f x)) xs"
  by (induction xs) auto

lemma sorted_groups:
  assumes x: "shape x = b # s" and b: "length conds = b"
    and xs: "index_rows x (argsort conds) = Inr xs"
    and sl': "take_lengths sl (argsort conds) = Inr sl'"
    and csm: "cs' = map (\<lambda>k. conds ! k) (argsort conds)"
    and run: "run_groups nsm xs sl'
         (zip (sort (remdups cs'))
            (map (\<lambda>c. filter (\<lambda>k. cs' ! k = c) [0..<length cs']) (sort (remdups cs'))))
        = (ns, Inr ys)"
    and nn: "\<forall>c\<in>set conds. 0 \<le> c"
    and cf: "\<forall>st\<in>set nsm. conforms_rows st x"
  shows "length ys = length (sort (remdups cs')) \<and> length ns = length nsm
     \<and> (\<forall>g<length (sort (remdups cs')). \<exists>xg slg.
           nat (sort (remdups cs') ! g) < length nsm
         \<and> index_rows x (members conds (sort (remdups cs') ! g)) = Inr xg
         \<and> take_lengths sl (members conds (sort (remdups cs') ! g)) = Inr slg
         \<and> forward (nsm ! nat (sort (remdups cs') ! g)) xg slg
              = (ns ! nat (sort (remdups cs') ! g), Inr (ys ! g))
         \<and> shape (ys ! g) = shape xg
         \<and> shape xg = length (filter (\<lambda>k. cs' ! k = sort (remdups cs') ! g) [0..<b]) # s
         \<and> map (\<lambda>k. argsort conds ! k)
               (filter (\<lambda>k. cs' ! k = sort (remdups cs') ! g) [0..<b])
             = members conds (sort (remdups cs') ! g))
     \<and> (\<forall>k<length nsm. int k \<notin> set conds \<longrightarrow> ns ! k = nsm ! k)"
proof -
  let ?si = "argsort conds"
  let ?keys = "sort (remdups cs')"
  let ?ias = "map (\<lambda>c. filter (\<lambda>k. cs' ! k = c) [0..<length cs']) ?keys"
  let ?gs = "zip ?keys ?ias"
  have lsi: "length ?si = b" using b by (simp add: length_argsort)
  have ssi: "set ?si = {0..<b}" using b by (simp add: set_argsort)
  have lcs: "length cs' = b" by (simp add: csm lsi)
  have setcs: "set cs' = set conds"
  proof -
    have "set cs' = (\<lambda>k. conds ! k) ` {0..<length conds}" by (simp add: csm ssi b)
    also have "\<dots> = set conds" by (simp add: set_conv_nth image_def atLeast0LessThan) blast
    finally show ?thesis .
  qed
  have keys: "distinct ?keys" "set ?keys = set conds" by (simp_all add: setcs)
  have lgs: "length ?gs = length ?keys" by simp
  have fgs: "map fst ?gs = ?keys" by (simp add: map_fst_zip)
  have gsn: "?gs ! g = (?keys ! g, filter (\<lambda>k. cs' ! k = ?keys ! g) [0..<b])"
    if "g < length ?keys" for g
    using that by (simp add: lcs)
  have d: "distinct (map fst ?gs)" unfolding fgs by (rule keys(1))
  have n0: "\<forall>g\<in>set ?gs. 0 \<le> fst g"
  proof
    fix g assume "g \<in> set ?gs"
    then have "(fst g, snd g) \<in> set ?gs" by simp
    then have "fst g \<in> set ?keys" by (rule set_zip_leftD)
    then show "0 \<le> fst g" using nn keys(2) by simp
  qed
  note rg = run_groups_Inr[OF run d n0]
  have lys: "length ys = length ?keys" using rg lgs by simp
  have lns: "length ns = length nsm" using rg by simp
  have grp: "\<exists>xg slg. nat (?keys ! g) < length nsm
       \<and> index_rows x (members conds (?keys ! g)) = Inr xg
       \<and> take_lengths sl (members conds (?keys ! g)) = Inr slg
       \<and> forward (nsm ! nat (?keys ! g)) xg slg = (ns ! nat (?keys ! g), Inr (ys ! g))
       \<and> shape (ys ! g) = shape xg
       \<and> shape xg = length (filter (\<lambda>k. cs' ! k = ?keys ! g) [0..<b]) # s
       \<and> map (\<lambda>k. ?si ! k) (filter (\<lambda>k. cs' ! k = ?keys ! g) [0..<b]) = members conds (?keys ! g)"
    if g: "g < length ?keys" for g
  proof -
    let ?ia = "filter (\<lambda>k. cs' ! k = ?keys ! g) [0..<b]"
    have gl: "g < length ?gs" using g by simp
    obtain xg slg where k: "nat (?keys ! g) < length nsm"
      and xg: "index_rows xs ?ia = Inr xg" and slg: "take_lengths sl' ?ia = Inr slg"
      and f: "forward (nsm ! nat (?keys ! g)) xg slg = (ns ! nat (?keys ! g), Inr (ys ! g))"
      using rg gl gsn[OF g] by (metis fst_conv snd_conv)
    have bd: "\<forall>k\<in>set ?ia. k < length ?si" by (simp add: lsi)
    have mem: "map (\<lambda>k. ?si ! k) ?ia = members conds (?keys ! g)"
      unfolding csm by (rule group_of_sorted[OF b])
    have xg': "index_rows x (members conds (?keys ! g)) = Inr xg"
      using index_rows_compose[OF xs bd] xg mem by simp
    have slg': "take_lengths sl (members conds (?keys ! g)) = Inr slg"
      using take_lengths_compose[OF sl' bd] slg mem by simp
    have sxg: "shape xg = length ?ia # s"
      using index_rows_Inr(2)[OF xg] index_rows_Inr(2)[OF xs] x by simp
    have "nsm ! nat (?keys ! g) \<in> set nsm" using k by simp
    then have "conforms (nsm ! nat (?keys ! g)) xg"
      using cf conforms_rows_group[of _ x xg "length ?ia"] sxg x by simp
    then have "shape (ys ! g) = shape xg" using forward_Inr_shape[OF f] by simp
    then show ?thesis using k xg' slg' f sxg mem by blast
  qed
  have oth: "ns ! k = nsm ! k" if "k < length nsm" and "int k \<notin> set conds" for k
  proof -
    have "fst ` set ?gs = set conds" using fgs keys(2) by (metis set_map)
    then show ?thesis using rg that by simp
  qed
  show ?thesis using lys lns grp oth by blast
qed

lemma normalize_groups_rows:
  assumes ng: "normalize_groups cn x conds sl = (ns, Inr (xr, sl'))"
    and len: "length conds = hd (shape x)"
    and nn: "\<forall>c\<in>set conds. 0 \<le> c"
    and cf: "\<forall>st\<in>set (norms cn). conforms_rows st x"
  shows "shape xr = shape x \<and> take_lengths sl (argsort conds) = Inr sl'
     \<and> length ns = length (norms cn)
     \<and> (\<forall>i<length conds. \<exists>xg slg yc p.
           nat (conds ! i) < length (norms cn)
         \<and> index_rows x (members conds (conds ! i)) = Inr xg
         \<and> take_lengths sl (members conds (conds ! i)) = Inr slg
         \<and> forward (norms cn ! nat (conds ! i)) xg slg = (ns ! nat (conds ! i), Inr yc)
         \<and> shape yc = shape xg
         \<and> p < length (members conds (conds ! i)) \<and> members conds (conds ! i) ! p = i
         \<and> (\<forall>j. el xr (i # j) = el yc (p # j)))
     \<and> (\<forall>k<length (norms cn). int k \<notin> set conds \<longrightarrow> ns ! k = norms cn ! k)"
proof -
  let ?si = "argsort conds"
  obtain b s ri xs cs' ys xc where x: "shape x = b # s"
    and ri: "np_put (replicate b 0) ?si [0..<b] = Inr ri"
    and xs: "index_rows x ?si = Inr xs"
    and sl': "take_lengths sl ?si = Inr sl'"
    and cs': "np_take conds ?si = Inr cs'"
    and run: "run_groups (norms cn) xs sl'
         (zip (sort (remdups cs'))
            (map (\<lambda>c. filter (\<lambda>k. cs' ! k = c) [0..<length cs']) (sort (remdups cs'))))
        = (ns, Inr ys)"
    and xc: "cat ys = Inr xc" and xr: "index_rows xc ri = Inr xr"
    using normalize_groups_Inr[OF ng] by blast
  let ?keys = "sort (remdups cs')"
  let ?ias = "map (\<lambda>c. filter (\<lambda>k. cs' ! k = c) [0..<length cs']) ?keys"
  let ?gs = "zip ?keys ?ias"
  have b: "length conds = b" using len x by simp
  have lsi: "length ?si = b" using b by (simp add: length_argsort)
  have ssi: "set ?si = {0..<b}" using b by (simp add: set_argsort)
  have csm: "cs' = map (\<lambda>k. conds ! k) ?si"
    using cs' by (auto simp add: np_take_def split: if_splits)
  have lcs: "length cs' = b" by (simp add: csm lsi)
  have scs: "sorted cs'" unfolding csm by (rule sorted_argsort)
  have setcs: "set cs' = set conds"
  proof -
    have "set cs' = (\<lambda>k. conds ! k) ` {0..<length conds}" by (simp add: csm ssi b)
    also have "\<dots> = set conds" by (simp add: set_conv_nth image_def atLeast0LessThan) blast
    finally show ?thesis .
  qed
  have keys: "distinct ?keys" "set ?keys = set conds" by (simp_all add: setcs)
  have sg: "length ys = length ?keys \<and> length ns = length (norms cn)
     \<and> (\<forall>g<length ?keys. \<exists>xg slg.
           nat (?keys ! g) < length (norms cn)
         \<and> index_rows x (members conds (?keys ! g)) = Inr xg
         \<and> take_lengths sl (members conds (?keys ! g)) = Inr slg
         \<and> forward (norms cn ! nat (?keys ! g)) xg slg = (ns ! nat (?keys ! g), Inr (ys ! g))
         \<and> shape (ys ! g) = shape xg
         \<and> shape xg = length (filter (\<lambda>k. cs' ! k = ?keys ! g) [0..<b]) # s
         \<and> map (\<lambda>k. ?si ! k) (filter (\<lambda>k. cs' ! k = ?keys ! g) [0..<b])
             = members conds (?keys ! g))
     \<and> (\<forall>k<length (norms cn). int k \<notin> set conds \<longrightarrow> ns ! k = norms cn ! k)"
    using sorted_groups[OF x b xs sl' csm run nn cf] .
  have lys: "length ys = length ?keys" and lns: "length ns = length (norms cn)"
    using sg by simp_all
  have grp: "\<exists>xg slg. nat (?keys ! g) < length (norms cn)
       \<and> index_rows x (members conds (?keys ! g)) = Inr xg
       \<and> take_lengths sl (members conds (?keys ! g)) = Inr slg
       \<and> forward (norms cn ! nat (?keys ! g)) xg slg = (ns ! nat (?keys ! g), Inr (ys ! g))
       \<and> shape (ys ! g) = shape xg
       \<and> shape xg = length (filter (\<lambda>k. cs' ! k = ?keys ! g) [0..<b]) # s
       \<and> map (\<lambda>k. ?si ! k) (filter (\<lambda>k. cs' ! k = ?keys ! g) [0..<b]) = members conds (?keys ! g)"
    if g: "g < length ?keys" for g
    using sg g by blast
  have cc: "concat ?ias = [0..<b]"
    using concat_groups_sorted[OF scs] by (simp add: lcs)
  have ne: "ys \<noteq> []" and exc: "el xc = cat_el ys"
    and sxc: "shape xc = sum_list (map (\<lambda>u. hd (shape u)) ys) # tl (shape (hd ys))"
    using cat_Inr[OF xc] by simp_all
  have hdr: "\<forall>g<length ys. hd (shape (ys ! g)) = map length ?ias ! g"
  proof (intro allI impI)
    fix g assume "g < length ys"
    then have g: "g < length ?keys" using lys by simp
    show "hd (shape (ys ! g)) = map length ?ias ! g"
      using grp[OF g] g by (auto simp add: lcs)
  qed
  have sxc': "shape xc = b # s"
  proof -
    have "map (\<lambda>u. hd (shape u)) ys = map length ?ias"
      using hdr lys by (intro nth_equalityI) simp_all
    then have "sum_list (map (\<lambda>u. hd (shape u)) ys) = length (concat ?ias)"
      by (simp add: length_concat)
    moreover have "tl (shape (hd ys)) = s"
    proof -
      have 0: "0 < length ?keys" using ne lys by (cases ys) auto
      have "hd ys = ys ! 0" using ne by (simp add: hd_conv_nth)
      then show ?thesis using grp[OF 0] by auto
    qed
    ultimately show ?thesis using sxc cc by simp
  qed
  have lri: "length ri = b" and inv: "\<And>n. n < b \<Longrightarrow> ri ! (?si ! n) = n"
    using np_put_inverse[OF ri distinct_argsort] lsi by simp_all
  have sxr: "shape xr = shape x"
    using index_rows_Inr(2)[OF xr] lri sxc' x by simp
  have row: "\<exists>xg slg yc p.
           nat (conds ! i) < length (norms cn)
         \<and> index_rows x (members conds (conds ! i)) = Inr xg
         \<and> take_lengths sl (members conds (conds ! i)) = Inr slg
         \<and> forward (norms cn ! nat (conds ! i)) xg slg = (ns ! nat (conds ! i), Inr yc)
         \<and> shape yc = shape xg
         \<and> p < length (members conds (conds ! i)) \<and> members conds (conds ! i) ! p = i
         \<and> (\<forall>j. el xr (i # j) = el yc (p # j))"
    if i: "i < length conds" for i
  proof -
    have "i \<in> set ?si" using i ssi b by simp
    then obtain k where k: "k < b" "?si ! k = i"
      using lsi by (auto simp add: in_set_conv_nth)
    have rik: "ri ! i = k" using inv[OF k(1)] k(2) by simp
    have ck: "cs' ! k = conds ! i" using k lsi by (simp add: csm)
    have "conds ! i \<in> set ?keys" using i keys(2) by simp
    then obtain g where g: "g < length ?keys" "?keys ! g = conds ! i"
      unfolding in_set_conv_nth by blast
    let ?ia = "filter (\<lambda>k. cs' ! k = ?keys ! g) [0..<b]"
    have iag: "?ias ! g = ?ia" using g(1) by (simp add: lcs)
    have "k \<in> set ?ia" using k(1) ck g(2) by simp
    then obtain p where p: "p < length ?ia" "?ia ! p = k"
      unfolding in_set_conv_nth by blast
    obtain xg slg where gr: "nat (?keys ! g) < length (norms cn)"
      "index_rows x (members conds (?keys ! g)) = Inr xg"
      "take_lengths sl (members conds (?keys ! g)) = Inr slg"
      "forward (norms cn ! nat (?keys ! g)) xg slg = (ns ! nat (?keys ! g), Inr (ys ! g))"
      "shape (ys ! g) = shape xg"
      "map (\<lambda>k. ?si ! k) ?ia = members conds (?keys ! g)"
      using grp[OF g(1)] by blast
    have lm: "length (members conds (?keys ! g)) = length ?ia"
      using arg_cong[OF gr(6), of length] by simp
    have mp: "members conds (?keys ! g) ! p = i"
    proof -
      have "members conds (?keys ! g) ! p = map (\<lambda>k. ?si ! k) ?ia ! p" by (simp only: gr(6))
      also have "\<dots> = ?si ! (?ia ! p)" using p(1) by simp
      finally show ?thesis using p(2) k(2) by simp
    qed
    have gi: "g < length ?ias" using g(1) by simp
    have pi: "p < length (?ias ! g)" using p(1) iag by simp
    have off: "length (concat (take g ?ias)) + p = k"
    proof -
      have "concat ?ias ! (length (concat (take g ?ias)) + p) = ?ias ! g ! p"
        and lt: "length (concat (take g ?ias)) + p < length (concat ?ias)"
        using nth_concat_pos[OF gi pi] by simp_all
      then have "[0..<b] ! (length (concat (take g ?ias)) + p) = k"
        using cc iag p(2) by simp
      moreover have "length (concat (take g ?ias)) + p < b" using lt cc by simp
      ultimately show ?thesis by simp
    qed
    have sm: "sum_list (take g (map length ?ias)) = length (concat (take g ?ias))"
      by (simp add: length_concat take_map)
    have "cat_el ys ((sum_list (take g (map length ?ias)) + p) # j) = el (ys ! g) (p # j)" for j
    proof (rule cat_el_rows[OF hdr])
      show "length (map length ?ias) = length ys" using lys by simp
      show "g < length ys" using g(1) lys by simp
      show "p < map length ?ias ! g" using pi gi by simp
    qed
    then have ce: "cat_el ys (k # j) = el (ys ! g) (p # j)" for j
      using sm off by simp
    have "el xr (i # j) = el (ys ! g) (p # j)" for j
    proof -
      have "el xr (i # j) = el xc (ri ! i # j)"
        using index_rows_Inr(3)[OF xr, of i j] i b lri by simp
      then show ?thesis using rik exc ce by simp
    qed
    then show ?thesis
      using gr(1-5) lm p(1) mp g(2) by (intro exI[of _ xg] exI[of _ slg] exI[of _ "ys ! g"] exI[of _ p]) simp
  qed
  have oth: "ns ! k = norms cn ! k" if "k < length (norms cn)" and "int k \<notin> set conds" for k
    using sg that by blast
  show ?thesis using sxr sl' lns row oth by blast
qed

lemma take_lengths_succeeds:
  assumes "case sl of None \<Rightarrow> True | Some l \<Rightarrow> \<forall>k\<in>set idx. k < length l"
  shows "\<exists>sl'. take_lengths sl idx = Inr sl'"
  using assms by (auto simp add: take_lengths_def np_take_def split: option.splits)

lemma cat_succeeds:
  assumes "ys \<noteq> []" and "\<forall>u\<in>set ys. \<exists>r. shape u = r # s"
  shows "\<exists>xc. cat ys = Inr xc"
proof -
  obtain t ts where ys: "ys = t # ts" using assms(1) by (cases ys) auto
  have "\<not> (shape t = [] \<or> (\<exists>u\<in>set ys. shape u = [] \<or> tl (shape u) \<noteq> tl (shape t)))"
    using assms(2) ys by fastforce
  then show ?thesis unfolding cat_def ys by (simp del: set_simps)
qed

lemma normalize_groups_succeeds:
  assumes x: "shape x = b # s" and pos: "0 < b" and b: "length conds = b"
    and rng: "\<forall>c\<in>set conds. 0 \<le> c \<and> c < int (length (norms cn))"
    and ls: "case sl of None \<Rightarrow> True | Some l \<Rightarrow> length l = b"
    and cf: "\<forall>st\<in>set (norms cn). conforms_rows st x"
    and rd: "\<forall>c\<in>set conds. \<forall>xg slg. index_rows x (members conds c) = Inr xg
               \<longrightarrow> take_lengths sl (members conds c) = Inr slg
               \<longrightarrow> ready (norms cn ! nat c) xg slg"
  shows "\<exists>ns xr sl'. normalize_groups cn x conds sl = (ns, Inr (xr, sl'))"
proof -
  let ?si = "argsort conds"
  have lsi: "length ?si = b" using b by (simp add: length_argsort)
  have ssi: "set ?si = {0..<b}" using b by (simp add: set_argsort)
  have nn: "\<forall>c\<in>set conds. 0 \<le> c" using rng by simp
  obtain ri where ri: "np_put (replicate b 0) ?si [0..<b] = Inr ri"
    using np_put_succeeds[of ?si "replicate b 0" "[0..<b]"] ssi lsi by auto
  obtain xs where xs: "index_rows x ?si = Inr xs"
    using index_rows_succeeds[OF x, of ?si] ssi by auto
  obtain sl' where sl': "take_lengths sl ?si = Inr sl'"
    using take_lengths_succeeds[where sl = sl and idx = "?si"] ls ssi by (auto split: option.splits)
  define cs' where "cs' = map (\<lambda>k. conds ! k) ?si"
  have cs: "np_take conds ?si = Inr cs'"
    using ssi b by (auto simp add: np_take_def cs'_def)
  let ?keys = "sort (remdups cs')"
  let ?ias = "map (\<lambda>c. filter (\<lambda>k. cs' ! k = c) [0..<length cs']) ?keys"
  let ?gs = "zip ?keys ?ias"
  have lcs: "length cs' = b" by (simp add: cs'_def lsi)
  have setcs: "set cs' = set conds"
  proof -
    have "set cs' = (\<lambda>k. conds ! k) ` {0..<length conds}" by (simp add: cs'_def ssi b)
    also have "\<dots> = set conds" by (simp add: set_conv_nth image_def atLeast0LessThan) blast
    finally show ?thesis .
  qed
  have sxs: "shape xs = b # s" using index_rows_Inr(2)[OF xs] x lsi by simp
  have d: "distinct (map fst ?gs)" by (simp add: map_fst_zip)
  have gr: "\<forall>g\<in>set ?gs. 0 \<le> fst g \<and> fst g < int (length (norms cn))
           \<and> (\<exists>xg slg. index_rows xs (snd g) = Inr xg \<and> take_lengths sl' (snd g) = Inr slg
                 \<and> ready (norms cn ! nat (fst g)) xg slg)"
  proof
    fix g assume "g \<in> set ?gs"
    then obtain c where c: "c \<in> set ?keys"
      and g: "g = (c, filter (\<lambda>k. cs' ! k = c) [0..<b])"
      by (auto simp add: zip_map_same lcs)
    let ?ia = "filter (\<lambda>k. cs' ! k = c) [0..<b]"
    have cc: "c \<in> set conds" using c setcs by simp
    have bd: "\<forall>k\<in>set ?ia. k < length ?si" by (simp add: lsi)
    have mem: "map (\<lambda>k. ?si ! k) ?ia = members conds c"
      unfolding cs'_def by (rule group_of_sorted[OF b])
    obtain xg where xg: "index_rows xs ?ia = Inr xg"
      using index_rows_succeeds[OF sxs, of ?ia] by auto
    have "case sl' of None \<Rightarrow> True | Some l \<Rightarrow> \<forall>k\<in>set ?ia. k < length l"
      using sl' lsi by (auto simp add: take_lengths_def np_take_def
          split: option.splits if_splits)
    then obtain slg where slg: "take_lengths sl' ?ia = Inr slg"
      using take_lengths_succeeds by blast
    have "index_rows x (members conds c) = Inr xg"
      using index_rows_compose[OF xs bd] xg mem by simp
    moreover have "take_lengths sl (members conds c) = Inr slg"
      using take_lengths_compose[OF sl' bd] slg mem by simp
    ultimately have "ready (norms cn ! nat c) xg slg" using rd cc by blast
    then show "0 \<le> fst g \<and> fst g < int (length (norms cn))
           \<and> (\<exists>xg slg. index_rows xs (snd g) = Inr xg \<and> take_lengths sl' (snd g) = Inr slg
                 \<and> ready (norms cn ! nat (fst g)) xg slg)"
      using rng cc xg slg by (auto simp add: g)
  qed
  obtain ns ys where run: "run_groups (norms cn) xs sl' ?gs = (ns, Inr ys)"
    using run_groups_succeeds[OF d gr] by blast
  have sg: "length ys = length ?keys
     \<and> (\<forall>g<length ?keys. \<exists>xg slg.
           nat (?keys ! g) < length (norms cn)
         \<and> index_rows x (members conds (?keys ! g)) = Inr xg
         \<and> take_lengths sl (members conds (?keys ! g)) = Inr slg
         \<and> forward (norms cn ! nat (?keys ! g)) xg slg = (ns ! nat (?keys ! g), Inr (ys ! g))
         \<and> shape (ys ! g) = shape xg
         \<and> shape xg = length (filter (\<lambda>k. cs' ! k = ?keys ! g) [0..<b]) # s
         \<and> map (\<lambda>k. ?si ! k) (filter (\<lambda>k. cs' ! k = ?keys ! g) [0..<b])
             = members conds (?keys ! g))"
    using sorted_groups[OF x b xs sl' cs'_def run nn cf] by blast
  have ne: "ys \<noteq> []"
  proof -
    have "conds \<noteq> []" using b pos by auto
    then have "?keys \<noteq> []" using setcs by (metis set_empty set_remdups set_sort)
    then show ?thesis using sg by auto
  qed
  have shp: "\<forall>u\<in>set ys. \<exists>r. shape u = r # s"
  proof
    fix u assume "u \<in> set ys"
    then obtain g where "g < length ys" "ys ! g = u" by (auto simp add: in_set_conv_nth)
    then show "\<exists>r. shape u = r # s" using sg by fastforce
  qed
  obtain xc where xc: "cat ys = Inr xc" using cat_succeeds[OF ne shp] by blast
  have hdr: "map (\<lambda>u. hd (shape u)) ys = map length ?ias"
  proof (intro nth_equalityI)
    show "length (map (\<lambda>u. hd (shape u)) ys) = length (map length ?ias)" using sg by simp
    fix g assume "g < length (map (\<lambda>u. hd (shape u)) ys)"
    then have g: "g < length ?keys" using sg by simp
    have "\<exists>xg slg.
           nat (?keys ! g) < length (norms cn)
         \<and> index_rows x (members conds (?keys ! g)) = Inr xg
         \<and> take_lengths sl (members conds (?keys ! g)) = Inr slg
         \<and> forward (norms cn ! nat (?keys ! g)) xg slg = (ns ! nat (?keys ! g), Inr (ys ! g))
         \<and> shape (ys ! g) = shape xg
         \<and> shape xg = length (filter (\<lambda>k. cs' ! k = ?keys ! g) [0..<b]) # s
         \<and> map (\<lambda>k. ?si ! k) (filter (\<lambda>k. cs' ! k = ?keys ! g) [0..<b])
             = members conds (?keys ! g)"
      using sg g by blast
    then obtain xg :: tensor where "shape (ys ! g) = shape xg"
      "shape xg = length (filter (\<lambda>k. cs' ! k = ?keys ! g) [0..<b]) # s"
      by blast
    then show "map (\<lambda>u. hd (shape u)) ys ! g = map length ?ias ! g"
      using g sg by (simp add: lcs)
  qed
  have scs: "sorted cs'" unfolding cs'_def by (rule sorted_argsort)
  have cc: "concat ?ias = [0..<b]"
    using concat_groups_sorted[OF scs] by (simp add: lcs)
  have "sum_list (map (\<lambda>u. hd (shape u)) ys) = length (concat ?ias)"
    unfolding hdr by (simp add: length_concat)
  then have sxc: "shape xc = b # tl (shape (hd ys))"
    using cat_Inr(3)[OF xc] cc by simp
  have lri: "length ri = b" and inv: "\<And>n. n < b \<Longrightarrow> ri ! (?si ! n) = n"
    using np_put_inverse[OF ri distinct_argsort] lsi by simp_all
  have "\<forall>v\<in>set ri. v < b"
  proof
    fix v assume "v \<in> set ri"
    then obtain i where i: "i < b" "ri ! i = v" using lri by (auto simp add: in_set_conv_nth)
    then have "i \<in> set ?si" using ssi by simp
    then obtain n where "n < b" "?si ! n = i" using lsi by (auto simp add: in_set_conv_nth)
    then show "v < b" using inv[of n] i(2) by simp
  qed
  then obtain xr where xr: "index_rows xc ri = Inr xr"
    using index_rows_succeeds[OF sxc] by blast
  show ?thesis
    using x ri xs sl' cs run xc xr
    by (simp add: normalize_groups_def Let_def bindE_def)
qed

subsection \<open>The conditioned normalisation on concrete batches\<close>

lemmas cn_eval =
  CN_forward_def normalize_groups_def shared_affine_def argsort_def np_put_def
  index_rows_def take_lengths_def np_take_def py_index_def cat_def
  Scale_forward_def Shift_forward_def
  forward_def compute_mask_def estimate_mode_def freezed_def bindE_def
  forward_estimate_def compute_stats_def normalize_batch_def unbiased_var_def
  update_running_stats_def expand_def expandable_def
  affine_and_mask_def tsum_def tbin_def tbin_inplace_def tmap_def broadcast_shapes_def
  pad_shape_def bdim_def bidx_def reduced_dims_def ones_like_def ones_def zeros_def
  full_def scalar_def truthy_def of_ints_def arange_def unsqueeze_last_def
  Let_def upt_rec enumerate_eq_zip numeral_2_eq_2 numeral_3_eq_3

lemma ConditionedNorm_init_doc:
  "ConditionedNorm_init 3 ''bct'' (Some [None, Some 10, None]) (Some ''c'') (Some True) ''bt''
     CHR ''b'' CHR ''t'' (1 / 100000) (Some (1 / 2)) None = Inr doc_cn"
  by (simp add: ConditionedNorm_init_def Norm_init_def bindE_def lower_simps buffer_shape_def
      Scale_init_def Shift_init_def truthy_def Let_def doc_cn_def inner_doc_norm_def
      doc_norm_def numeral_3_eq_3)

lemma ConditionedNorm_init_pair:
  "ConditionedNorm_init 2 ''bct'' (Some [None, Some 1, None]) None (Some False) ''bt''
     CHR ''b'' CHR ''t'' (1 / 100000) (Some (1 / 2)) None = Inr pair_cn"
  by (simp add: ConditionedNorm_init_def Norm_init_def bindE_def lower_simps buffer_shape_def
      truthy_def Let_def pair_cn_def pair_norm_def numeral_2_eq_2)

lemma shifted_doc_eval:
  "case CN_forward shifted_doc_cn doc_x [0, 1, 0] (Some [1, 2, 3]) of
     (cn', Inr y) \<Rightarrow> shape y = [3, 10, 4] \<and> el y [1, 0, 1] = - 1 \<and> el y [1, 0, 2] = - 1
                    \<and> el y [2, 0, 2] = 0
   | (cn', Inl e) \<Rightarrow> False"
  by (simp add: cn_eval shifted_doc_cn_def doc_cn_def inner_doc_norm_def doc_norm_def doc_x_def)

lemma sorted_doc_lengths:
  "take_lengths (Some [1, 2, 3]) (argsort [0, 1, 0]) = Inr (Some [1, 3, 2])"
  by (simp add: argsort_def take_lengths_def np_take_def upt_rec numeral_3_eq_3)

text \<open>
  The failing input of claim C1. The instance is the one of the doctest of
  \<open>ConditionedNorm\<close> with a shared shift of 1, the call is the one of the doctest:
  the input \<open>2*torch.ones((3,10,4))\<close>, the conditions \<open>[0, 1, 0]\<close> and the lengths
  \<open>[1, 2, 3]\<close>. Line 339 reorders the lengths to \<open>[1, 3, 2]\<close>, line 355 restores the order
  of the rows, and line 361 computes the mask of the restored rows from the reordered
  lengths. The call returns a tensor of the shape of the input, but example 1, of
  length 2, is masked with the length 3: its entry at \<open>t = 2\<close> is \<open>- shift = - 1\<close>, not
  zero; and example 2, of length 3, is masked with the length 2: its entry at the
  valid position \<open>t = 2\<close> is 0.
\<close>

theorem conditioned_mask_from_sorted_lengths:
  "\<exists>cn cn' y.
      ConditionedNorm_init 3 ''bct'' (Some [None, Some 10, None]) (Some ''c'') (Some True)
        ''bt'' CHR ''b'' CHR ''t'' (1 / 100000) (Some (1 / 2)) None = Inr cn
    \<and> shifted_doc_cn = cn\<lparr>cn_learnable_shift := Some (ones [1, 10, 1])\<rparr>
    \<and> take_lengths (Some [1, 2, 3]) (argsort [0, 1, 0]) = Inr (Some [1, 3, 2])
    \<and> CN_forward shifted_doc_cn doc_x [0, 1, 0] (Some [1, 2, 3]) = (cn', Inr y)
    \<and> shape y = [3, 10, 4]
    \<and> el y [1, 0, 1] = - 1 \<and> el y [1, 0, 2] = - 1 \<and> el y [2, 0, 2] = 0"
proof -
  obtain cn' r where f: "CN_forward shifted_doc_cn doc_x [0, 1, 0] (Some [1, 2, 3]) = (cn', r)"
    by (cases "CN_forward shifted_doc_cn doc_x [0, 1, 0] (Some [1, 2, 3])")
  then obtain y where r: "r = Inr y" using shifted_doc_eval by (cases r) simp_all
  have "shape y = [3, 10, 4] \<and> el y [1, 0, 1] = - 1 \<and> el y [1, 0, 2] = - 1 \<and> el y [2, 0, 2] = 0"
    using shifted_doc_eval f r by simp
  then show ?thesis
    using ConditionedNorm_init_doc sorted_doc_lengths f r
    by (intro exI[of _ doc_cn] conjI exI[of _ cn', OF exI[of _ y]])
       (simp_all add: shifted_doc_cn_def)
qed

theorem conditioned_mask_from_sorted_lengths_witness:
  "\<exists>cn' y. CN_forward shifted_doc_cn doc_x [0, 1, 0] (Some [1, 2, 3]) = (cn', Inr y)
      \<and> el y [1, 0, 2] \<noteq> 0"
proof -
  obtain cn' y where
    "CN_forward shifted_doc_cn doc_x [0, 1, 0] (Some [1, 2, 3]) = (cn', Inr y)"
    and "el y [1, 0, 2] = - 1"
    using conditioned_mask_from_sorted_lengths by blast
  then show ?thesis by (intro exI[of _ cn'] exI[of _ y]) simp
qed

lemma pair_group_eval:
  "case CN_forward pair_cn two_rows [0, 0] None of
     (cn', Inr y) \<Rightarrow> el y [0, 0, 0] = - 1
        \<and> (case running_mean (norms cn' ! 0) of
              Some rm \<Rightarrow> el rm [0, 0, 0] = 1 / 2 | None \<Rightarrow> False)
   | (cn', Inl e) \<Rightarrow> False"
  by (simp add: cn_eval pair_cn_def pair_norm_def two_rows_def)

lemma pair_single_eval:
  "case index_rows two_rows [0] of
     Inr x0 \<Rightarrow>
       (case forward pair_norm x0 None of
          (st1, Inr y1) \<Rightarrow> el y1 [0, 0, 0] = 0
             \<and> (case running_mean st1 of Some rm \<Rightarrow> el rm [0, 0, 0] = 0 | None \<Rightarrow> False)
        | (st1, Inl e) \<Rightarrow> False)
   | Inl e \<Rightarrow> False"
  by (simp add: cn_eval pair_norm_def two_rows_def)

text \<open>
  Counterexample to claim C2 as stated. Two examples of the condition 0 are normalised
  by an instance without shared scale and shift whose instances of \<open>Norm\<close> take their
  statistics over the batch and the time axis. In the batch, the row of example 0 is
  \<open>- 1\<close> (the mean of the group is 1) and the running mean of the instance of condition
  0 becomes 1/2; on the batch of the single row of example 0, that instance gives the
  row 0 and the running mean 0.
\<close>

theorem single_row_differs_from_group:
  "\<exists>cn cn' y x0 st1 y1 rm rm1.
      ConditionedNorm_init 2 ''bct'' (Some [None, Some 1, None]) None (Some False) ''bt''
        CHR ''b'' CHR ''t'' (1 / 100000) (Some (1 / 2)) None = Inr cn
    \<and> CN_forward cn two_rows [0, 0] None = (cn', Inr y)
    \<and> index_rows two_rows [0] = Inr x0
    \<and> forward (norms cn ! 0) x0 None = (st1, Inr y1)
    \<and> el y [0, 0, 0] = - 1 \<and> el y1 [0, 0, 0] = 0
    \<and> running_mean (norms cn' ! 0) = Some rm \<and> running_mean st1 = Some rm1
    \<and> el rm [0, 0, 0] = 1 / 2 \<and> el rm1 [0, 0, 0] = 0"
proof -
  obtain cn' r where f: "CN_forward pair_cn two_rows [0, 0] None = (cn', r)"
    by (cases "CN_forward pair_cn two_rows [0, 0] None")
  then obtain y where r: "r = Inr y" using pair_group_eval by (cases r) simp_all
  obtain rm where g: "el y [0, 0, 0] = - 1" "running_mean (norms cn' ! 0) = Some rm"
    "el rm [0, 0, 0] = 1 / 2"
    using pair_group_eval f r by (cases "running_mean (norms cn' ! 0)") simp_all
  obtain x0 where x0: "index_rows two_rows [0] = Inr x0"
    using pair_single_eval by (cases "index_rows two_rows [0]") simp_all
  obtain st1 r1 where f1: "forward pair_norm x0 None = (st1, r1)"
    by (cases "forward pair_norm x0 None")
  then obtain y1 where r1: "r1 = Inr y1" using pair_single_eval x0 by (cases r1) simp_all
  obtain rm1 where h: "el y1 [0, 0, 0] = 0" "running_mean st1 = Some rm1"
    "el rm1 [0, 0, 0] = 0"
    using pair_single_eval x0 f1 r1 by (cases "running_mean st1") simp_all
  have n0: "norms pair_cn ! 0 = pair_norm" by (simp add: pair_cn_def)
  show ?thesis
    using ConditionedNorm_init_pair f r g x0 f1 r1 h n0
    by (intro exI[of _ pair_cn] exI[of _ cn'] exI[of _ y] exI[of _ x0] exI[of _ st1]
        exI[of _ y1] exI[of _ rm] exI[of _ rm1]) simp
qed

text \<open>
  Claim C2, as amended. Let \<open>ConditionedNorm.forward\<close> return for a batch with one
  condition for every example, none of them negative, and let the parameters and
  buffers of the instances of \<open>Norm\<close> fit a row of the input. The result is the shared
  scale and shift of lines 357-363 applied to the tensor \<open>xr\<close> of lines 333-355, and it is
  \<open>xr\<close> itself when the instance has no shared scale and shift. This tensor has the shape
  of the input, and its row for example \<open>i\<close> is row \<open>p\<close> of the output that the instance
  of the condition of \<open>i\<close> gives, from the state it had before the call, for the examples
  of that condition alone, in the order of the batch and with their lengths; \<open>p\<close> is the
  position of \<open>i\<close> among them. That instance is left in the state of this one call, and
  the instance of a condition that no example has is left as it was.
\<close>

theorem conditioned_rows_by_group:
  assumes "CN_forward cn x conditions seq_len = (cn', Inr y)"
    and "length conditions = hd (shape x)"
    and "\<forall>c\<in>set conditions. 0 \<le> c"
    and "\<forall>st\<in>set (norms cn). conforms_rows st x"
  shows "\<exists>xr sl'.
       normalize_groups cn x conditions seq_len = (norms cn', Inr (xr, sl'))
     \<and> shared_affine cn (norms cn') xr sl' = Inr y
     \<and> (cn_learnable_scale cn = None \<and> cn_learnable_shift cn = None \<longrightarrow> y = xr)
     \<and> shape xr = shape x
     \<and> (\<forall>i<length conditions. \<exists>xg slg yc p.
           index_rows x (members conditions (conditions ! i)) = Inr xg
         \<and> take_lengths seq_len (members conditions (conditions ! i)) = Inr slg
         \<and> forward (norms cn ! nat (conditions ! i)) xg slg
              = (norms cn' ! nat (conditions ! i), Inr yc)
         \<and> p < length (members conditions (conditions ! i))
         \<and> members conditions (conditions ! i) ! p = i
         \<and> (\<forall>j. el xr (i # j) = el yc (p # j)))
     \<and> (\<forall>k<length (norms cn). int k \<notin> set conditions \<longrightarrow> norms cn' ! k = norms cn ! k)"
proof -
  obtain ns xr sl' where ng: "normalize_groups cn x conditions seq_len = (ns, Inr (xr, sl'))"
    and cn': "cn' = cn\<lparr>norms := ns\<rparr>" and y: "shared_affine cn ns xr sl' = Inr y"
    using assms(1) by (auto simp add: CN_forward_def split: prod.splits sum.splits)
  have ns: "norms cn' = ns" by (simp add: cn')
  have id: "cn_learnable_scale cn = None \<and> cn_learnable_shift cn = None \<longrightarrow> y = xr"
    using y by (auto simp add: shared_affine_def bindE_def)
  note r = normalize_groups_rows[OF ng assms(2,3,4)]
  have rows: "\<forall>i<length conditions. \<exists>xg slg yc p.
           index_rows x (members conditions (conditions ! i)) = Inr xg
         \<and> take_lengths seq_len (members conditions (conditions ! i)) = Inr slg
         \<and> forward (norms cn ! nat (conditions ! i)) xg slg
              = (ns ! nat (conditions ! i), Inr yc)
         \<and> p < length (members conditions (conditions ! i))
         \<and> members conditions (conditions ! i) ! p = i
         \<and> (\<forall>j. el xr (i # j) = el yc (p # j))"
    using r by blast
  show ?thesis
    unfolding ns using ng y id r rows by blast
qed

lemma pair_swapped_eval:
  "case CN_forward pair_cn two_rows [1, 0] None of
     (cn', Inr y) \<Rightarrow>
       (case running_mean (norms cn' ! 0) of Some rm \<Rightarrow> el rm [0, 0, 0] = 1 | None \<Rightarrow> False)
   | (cn', Inl e) \<Rightarrow> False"
  by (simp add: cn_eval pair_cn_def pair_norm_def two_rows_def)

theorem conditioned_rows_by_group_witness:
  "\<exists>cn' y xg yc.
      CN_forward pair_cn two_rows [1, 0] None = (cn', Inr y)
    \<and> index_rows two_rows [0] = Inr xg
    \<and> forward (norms pair_cn ! 1) xg None = (norms cn' ! 1, Inr yc)
    \<and> (\<forall>j. el y (0 # j) = el yc (0 # j))
    \<and> norms cn' ! 0 \<noteq> norms pair_cn ! 0"
proof -
  obtain cn' r where f0: "CN_forward pair_cn two_rows [1, 0] None = (cn', r)"
    by (cases "CN_forward pair_cn two_rows [1, 0] None")
  then obtain y where f: "CN_forward pair_cn two_rows [1, 0] None = (cn', Inr y)"
    using pair_swapped_eval by (cases r) simp_all
  have l: "length [1, 0 :: int] = hd (shape two_rows)" by (simp add: two_rows_def)
  have n: "\<forall>c\<in>set [1, 0 :: int]. 0 \<le> c" by simp
  have c: "\<forall>st\<in>set (norms pair_cn). conforms_rows st two_rows"
    by (simp add: pair_cn_def conforms_rows_def conforms_def fits_def pair_norm_def
        two_rows_def zeros_def full_def expandable_def)
  obtain xr sl' where a: "cn_learnable_scale pair_cn = None \<and> cn_learnable_shift pair_cn = None
        \<longrightarrow> y = xr"
    and rows: "\<forall>i<length [1, 0 :: int]. \<exists>xg slg yc p.
           index_rows two_rows (members [1, 0] ([1, 0] ! i)) = Inr xg
         \<and> take_lengths None (members [1, 0] ([1, 0] ! i)) = Inr slg
         \<and> forward (norms pair_cn ! nat ([1, 0] ! i)) xg slg
              = (norms cn' ! nat ([1, 0] ! i), Inr yc)
         \<and> p < length (members [1, 0] ([1, 0] ! i))
         \<and> members [1, 0] ([1, 0] ! i) ! p = i
         \<and> (\<forall>j. el xr (i # j) = el yc (p # j))"
    using conditioned_rows_by_group[OF f l n c] by blast
  have yx: "y = xr" using a by (simp add: pair_cn_def)
  have m: "members [1, 0] 1 = [0]" by (simp add: members_def upt_rec numeral_2_eq_2)
  obtain xg slg yc p where g: "index_rows two_rows [0] = Inr xg"
    "take_lengths None [0] = Inr slg"
    "forward (norms pair_cn ! 1) xg slg = (norms cn' ! 1, Inr yc)"
    "p < 1" "\<forall>j. el xr (0 # j) = el yc (p # j)"
    using rows[rule_format, of 0] m by auto
  have sn: "slg = None" using g(2) by (simp add: take_lengths_def)
  have p0: "p = 0" using g(4) by simp
  have "norms cn' ! 0 \<noteq> norms pair_cn ! 0"
  proof
    assume e: "norms cn' ! 0 = norms pair_cn ! 0"
    have "case running_mean (norms cn' ! 0) of Some rm \<Rightarrow> el rm [0, 0, 0] = 1 | None \<Rightarrow> False"
      using pair_swapped_eval f by simp
    then show False using e by (simp add: pair_cn_def pair_norm_def zeros_def full_def)
  qed
  then show ?thesis
    using f g(1,3,5) sn p0 yx by (intro exI[of _ cn'] exI[of _ y] exI[of _ xg] exI[of _ yc]) simp
qed

end
